theory Spec2Isabelle
  imports Main
begin

section \<open>Values supplied by the data source\<close>

text \<open>
  A record is a plain JavaScript object whose own fields hold strings, numbers, booleans
  or \<open>null\<close>; \<open>record_t\<close> gives the own fields, \<open>None\<close> for a field the record does not
  have. Numbers are the integer-valued ones (identifiers, counters, prices); strings are
  sequences of code units below 256, so that case mapping and white space are the
  Latin-1 part of what \<open>toLowerCase\<close>, \<open>trim\<close> and the regular expression class
  \<open>\s\<close> do. The two last kinds of value are what a read finds on the prototype: a
  native function, with its name, and the prototype object itself.
\<close>

datatype jsval = JBool bool | JNum int | JStr string | JNull | JFun string | JObject

type_synonym record_t = "string \<Rightarrow> jsval option"

text \<open>
  What every plain object inherits from \<open>Object.prototype\<close>, and the read
  \<open>record[key]\<close>: the own field when there is one, the inherited member otherwise, and
  \<open>undefined\<close> (\<open>None\<close>) when there is neither.
\<close>

definition Object_prototype :: "string \<Rightarrow> jsval option" where
  "Object_prototype key =
     (if key = ''constructor'' then Some (JFun ''Object'')
      else if key \<in> set [''toString'', ''toLocaleString'', ''valueOf'', ''hasOwnProperty'',
                          ''isPrototypeOf'', ''propertyIsEnumerable'', ''__defineGetter__'',
                          ''__defineSetter__'', ''__lookupGetter__'', ''__lookupSetter__'']
      then Some (JFun key)
      else if key = ''__proto__'' then Some JObject
      else None)"

definition get_prop :: "record_t \<Rightarrow> string \<Rightarrow> jsval option" where
  "get_prop rec key = (case rec key of Some v \<Rightarrow> Some v | None \<Rightarrow> Object_prototype key)"

text \<open>Decimal numerals, as \<open>String(n)\<close> and a template literal print an integer.\<close>

fun string_of_nat :: "nat \<Rightarrow> string" where
  "string_of_nat n =
     (if n < 10 then [''0123456789'' ! n]
      else string_of_nat (n div 10) @ [''0123456789'' ! (n mod 10)])"

definition string_of_int :: "int \<Rightarrow> string" where
  "string_of_int k = (if k < 0 then CHR ''-'' # string_of_nat (nat (- k)) else string_of_nat (nat k))"

text \<open>
  \<open>String(v)\<close> for a value that is present. A native function prints as its header and
  the words \<open>[native code]\<close>; the white space in between is the engine's.
\<close>

fun String_js :: "jsval \<Rightarrow> string" where
  "String_js (JBool b) = (if b then ''true'' else ''false'')"
| "String_js (JNum k) = string_of_int k"
| "String_js (JStr s) = s"
| "String_js JNull = ''null''"
| "String_js (JFun f) = ''function '' @ f @ ''() { [native code] }''"
| "String_js JObject = ''[object Object]''"

text \<open>Truthiness, as the operator \<open>||\<close> tests its left operand.\<close>

fun truthy :: "jsval option \<Rightarrow> bool" where
  "truthy None = False"
| "truthy (Some JNull) = False"
| "truthy (Some (JBool b)) = b"
| "truthy (Some (JNum k)) = (k \<noteq> 0)"
| "truthy (Some (JStr s)) = (s \<noteq> [])"
| "truthy (Some (JFun f)) = True"
| "truthy (Some JObject) = True"

subsection \<open>String primitives\<close>

definition is_digit :: "char \<Rightarrow> bool" where
  "is_digit c = (c \<in> set ''0123456789'')"

text \<open>White space and line terminators among the code units below 256.\<close>

definition is_space :: "char \<Rightarrow> bool" where
  "is_space c = (of_char c \<in> {9::nat, 10, 11, 12, 13, 32, 160})"

text \<open>
  Lower-casing one code unit: \<open>A\<close>--\<open>Z\<close> and the Latin-1 capitals \<open>0xC0\<close>--\<open>0xDE\<close>
  (without the multiplication sign \<open>0xD7\<close>) move up by 32, which sets bit 5.
\<close>

definition lower_char :: "char \<Rightarrow> char" where
  "lower_char c =
     (let n = (of_char c :: nat) in
      if (65 \<le> n \<and> n \<le> 90) \<or> (192 \<le> n \<and> n \<le> 222 \<and> n \<noteq> 215)
      then (case c of Char b0 b1 b2 b3 b4 b5 b6 b7 \<Rightarrow> Char b0 b1 b2 b3 b4 True b6 b7)
      else c)"

definition toLowerCase :: "string \<Rightarrow> string" where
  "toLowerCase s = map lower_char s"

definition trim :: "string \<Rightarrow> string" where
  "trim s = rev (dropWhile is_space (rev (dropWhile is_space s)))"

text \<open>\<open>s.split('\n')\<close> and \<open>lines.join('\n')\<close>.\<close>

fun split_nl :: "string \<Rightarrow> string list" where
  "split_nl [] = [[]]"
| "split_nl (c # cs) =
     (if c = CHR 0x0A then [] # split_nl cs
      else (case split_nl cs of [] \<Rightarrow> [[c]] | l # ls \<Rightarrow> (c # l) # ls))"

fun join_nl :: "string list \<Rightarrow> string" where
  "join_nl [] = []"
| "join_nl [l] = l"
| "join_nl (l # m # ls) = l @ CHR 0x0A # join_nl (m # ls)"

section \<open>Boolean coercion\<close>

text \<open>
  \<open>parseBoolean(val)\<close>: booleans pass, a number is true unless zero, a string is
  lower-cased and trimmed and then compared with the two token lists; anything else is
  \<open>!!val\<close>, which for \<open>null\<close> is false and for a function or an object true.
\<close>

fun parseBoolean :: "jsval \<Rightarrow> bool" where
  "parseBoolean (JBool b) = b"
| "parseBoolean (JNum k) = (k \<noteq> 0)"
| "parseBoolean (JStr v) =
     (let s = trim (toLowerCase v) in
      if s = ''true'' \<or> s = ''yes'' \<or> s = ''1'' \<or> s = ''checked'' \<or> s = ''ok'' then True
      else if s = ''false'' \<or> s = ''no'' \<or> s = ''0'' \<or> s = ''unchecked'' \<or> s = '''' \<or> s = ''null''
      then False
      else length s > 0)"
| "parseBoolean JNull = False"
| "parseBoolean (JFun f) = True"
| "parseBoolean JObject = True"

section \<open>Ordered-list detection\<close>

text \<open>
  The pattern \<open>/^\d+\.\s+/\<close>: one or more digits, a dot, one or more white-space
  characters, anchored at the start. The three classes are disjoint, so the greedy match
  is the longest run of each. \<open>numberedPattern_match l\<close> is what is left of the line
  after the match, \<open>None\<close> when the pattern does not match.
\<close>

definition numberedPattern_match :: "string \<Rightarrow> string option" where
  "numberedPattern_match l =
     (if takeWhile is_digit l = [] then None
      else (case dropWhile is_digit l of
              [] \<Rightarrow> None
            | c # r \<Rightarrow>
                if c \<noteq> CHR ''.'' then None
                else if takeWhile is_space r = [] then None
                else Some (dropWhile is_space r)))"

definition numberedPattern_test :: "string \<Rightarrow> bool" where
  "numberedPattern_test l = (numberedPattern_match l \<noteq> None)"

text \<open>\<open>line.replace(numberedPattern, '')\<close>\<close>

definition numberedPattern_strip :: "string \<Rightarrow> string" where
  "numberedPattern_strip l = (case numberedPattern_match l of None \<Rightarrow> l | Some r \<Rightarrow> r)"

section \<open>The document tree\<close>

datatype node_kind = FRAME | GROUP | INSTANCE | COMPONENT | COMPONENT_SET | TEXT | RECTANGLE

datatype list_type = ORDERED | UNORDERED | NONE

text \<open>
  What the plugin reads and writes of a scene node. \<open>listOptions\<close> is the list style of
  the whole text range; \<open>notionId\<close> and \<open>sourceComponentId\<close> are the two plugin-data
  slots (\<open>PLUGIN_DATA_KEY\<close>, \<open>PLUGIN_DATA_COMPONENT\<close>), empty when never set.
\<close>

record attrs =
  node_name :: string
  node_type :: node_kind
  node_x :: int
  node_y :: int
  node_width :: int
  node_height :: int
  visible :: bool
  characters :: string
  listOptions :: list_type
  notionId :: string
  sourceComponentId :: string

datatype node = Node (attrs_of: attrs) (children: "node list")

text \<open>\<open>'children' in node\<close>: containers have the property, text and shapes do not.\<close>

definition has_children :: "node \<Rightarrow> bool" where
  "has_children n = (node_type (attrs_of n) \<noteq> TEXT \<and> node_type (attrs_of n) \<noteq> RECTANGLE)"

text \<open>
  \<open>parseAndApplyListStyle(textNode, rawValue)\<close>, on the attributes of the text node:
  \<open>characters\<close> is assigned and the list style of the whole range set; the host is
  taken to accept the range.
\<close>

definition parseAndApplyListStyle :: "attrs \<Rightarrow> string \<Rightarrow> attrs" where
  "parseAndApplyListStyle textNode rawValue =
     (let lines = split_nl rawValue;
          isNumberedList = (case lines of [] \<Rightarrow> False | l0 # _ \<Rightarrow> numberedPattern_test l0)
      in if isNumberedList
         then (let cleanedLines = map numberedPattern_strip lines;
                   cleanedText = join_nl cleanedLines
               in textNode\<lparr>characters := cleanedText, listOptions := ORDERED\<rparr>)
         else textNode\<lparr>characters := rawValue, listOptions := NONE\<rparr>)"


subsection \<open>References into the page\<close>

text \<open>
  The page is the list \<open>figma.currentPage.children\<close>. A reference to a scene node is
  its path of child indices from the page, so two references to nested nodes see each
  other's writes as they do in the host. The plugin never removes or reorders children,
  and appends only at the end of the page, so a path stays valid during a pass.
\<close>

type_synonym ref = "nat list"
type_synonym page = "node list"

fun get_node :: "node \<Rightarrow> ref \<Rightarrow> node option" where
  "get_node n [] = Some n"
| "get_node n (i # p) = (if i < length (children n) then get_node (children n ! i) p else None)"

definition get_at :: "page \<Rightarrow> ref \<Rightarrow> node option" where
  "get_at pg r = (case r of [] \<Rightarrow> None
                  | i # p \<Rightarrow> if i < length pg then get_node (pg ! i) p else None)"

text \<open>An assignment to properties of the node behind a reference.\<close>

fun upd_node :: "(attrs \<Rightarrow> attrs) \<Rightarrow> ref \<Rightarrow> node \<Rightarrow> node" where
  "upd_node f [] (Node a cs) = Node (f a) cs"
| "upd_node f (i # p) (Node a cs) =
     Node a (if i < length cs then cs[i := upd_node f p (cs ! i)] else cs)"

definition upd_at :: "(attrs \<Rightarrow> attrs) \<Rightarrow> ref \<Rightarrow> page \<Rightarrow> page" where
  "upd_at f r pg = (case r of [] \<Rightarrow> pg
                    | i # p \<Rightarrow> if i < length pg then pg[i := upd_node f p (pg ! i)] else pg)"

definition ref_has_children :: "page \<Rightarrow> ref \<Rightarrow> bool" where
  "ref_has_children pg r = (case get_at pg r of None \<Rightarrow> False | Some n \<Rightarrow> has_children n)"

section \<open>Constants\<close>

definition CARD_GAP :: int where "CARD_GAP = 20"
definition CARDS_PER_ROW :: nat where "CARDS_PER_ROW = 4"

section \<open>Identity index\<close>

text \<open>
  \<open>buildExistingMap\<close>: \<open>walk\<close> visits a node, then its children in order when it has
  the \<open>children\<close> property; a node with a non-empty \<open>notionId\<close> is pushed onto the
  list stored under that identifier. The \<open>Map\<close> is a partial function from identifiers
  to lists of references; \<open>None\<close> is what \<open>get\<close> returns for a key that was never set.
\<close>

type_synonym index_t = "string \<Rightarrow> ref list option"

fun walk :: "ref \<Rightarrow> node \<Rightarrow> index_t \<Rightarrow> index_t"
  and walk_children :: "ref \<Rightarrow> nat \<Rightarrow> node list \<Rightarrow> index_t \<Rightarrow> index_t" where
  "walk r (Node a cs) m =
     (let nid = notionId a;
          m1 = (if nid \<noteq> []
                then m(nid \<mapsto> (case m nid of None \<Rightarrow> [] | Some existing \<Rightarrow> existing) @ [r])
                else m)
      in if has_children (Node a cs) then walk_children r 0 cs m1 else m1)"
| "walk_children r i [] m = m"
| "walk_children r i (c # cs) m = walk_children r (Suc i) cs (walk (r @ [i]) c m)"

definition buildExistingMap :: "page \<Rightarrow> index_t" where
  "buildExistingMap pg = walk_children [] 0 pg Map.empty"

section \<open>Layout placement\<close>

definition getNextAvailableY :: "page \<Rightarrow> int" where
  "getNextAvailableY pg =
     (let maxY = foldl (\<lambda>maxY child.
                    let bottom = node_y (attrs_of child) + node_height (attrs_of child)
                    in if bottom > maxY then bottom else maxY) 0 pg
      in if maxY > 0 then maxY + CARD_GAP * 2 else 0)"

section \<open>Field applier\<close>

datatype exn = TypeError

text \<open>
  \<open>findChildByName\<close>: depth first over the children, the first node of that name wins.
  The result is the path below the parent. Iterating \<open>parent.children\<close> of a node that
  has no such property throws; the recursive call is guarded, the outer one is not.
\<close>

fun findChild :: "node \<Rightarrow> string \<Rightarrow> ref option"
  and findChild_from :: "nat \<Rightarrow> node list \<Rightarrow> string \<Rightarrow> ref option" where
  "findChild (Node a cs) nm = findChild_from 0 cs nm"
| "findChild_from i [] nm = None"
| "findChild_from i (c # cs) nm =
     (if node_name (attrs_of c) = nm then Some [i]
      else (case (if has_children c then findChild c nm else None) of
              Some p \<Rightarrow> Some (i # p)
            | None \<Rightarrow> findChild_from (Suc i) cs nm))"

definition findChildByName :: "page \<Rightarrow> ref \<Rightarrow> string \<Rightarrow> exn + ref option" where
  "findChildByName pg parent nm =
     (case get_at pg parent of
        None \<Rightarrow> Inl TypeError
      | Some n \<Rightarrow> if has_children n then Inr (map_option ((@) parent) (findChild n nm))
                  else Inl TypeError)"

datatype data_kind = DT_text | DT_image

record FieldMapping =
  layerName :: string
  dataField :: string
  dataType :: data_kind

text \<open>
  One iteration of the loop of \<open>fillInstanceData\<close>. The result is the page after the
  iteration and the exception that ended it, if any: what was written before a throw
  stays written. Fonts are taken to load: \<open>loadFontAsync\<close> has no effect on the tree,
  and a failure of the host there is not part of the model.
\<close>

definition apply_mapping :: "page \<Rightarrow> ref \<Rightarrow> record_t \<Rightarrow> FieldMapping \<Rightarrow> exn option \<times> page" where
  "apply_mapping pg instance rec mapping =
     (case findChildByName pg instance (layerName mapping) of
        Inl e \<Rightarrow> (Some e, pg)
      | Inr None \<Rightarrow> (None, pg)
      | Inr (Some targetNode) \<Rightarrow>
          (case get_prop rec (dataField mapping) of
             None \<Rightarrow> (None, pg)
           | Some JNull \<Rightarrow> (None, pg)
           | Some v \<Rightarrow>
               (let isVisible = parseBoolean v;
                    pg1 = upd_at (\<lambda>a. a\<lparr>visible := isVisible\<rparr>) targetNode pg
                in if \<not> isVisible then (None, pg1)
                   else if (case get_at pg1 targetNode of
                              None \<Rightarrow> False
                            | Some t \<Rightarrow> node_type (attrs_of t) = TEXT)
                   then (case v of
                           JBool b \<Rightarrow> (None, pg1)
                         | _ \<Rightarrow> (None, upd_at (\<lambda>a. parseAndApplyListStyle a (String_js v))
                                         targetNode pg1))
                   else (None, pg1))))"

fun fillInstanceData :: "page \<Rightarrow> ref \<Rightarrow> record_t \<Rightarrow> FieldMapping list \<Rightarrow> exn option \<times> page" where
  "fillInstanceData pg instance rec [] = (None, pg)"
| "fillInstanceData pg instance rec (mapping # rest) =
     (case apply_mapping pg instance rec mapping of
        (Some e, pg') \<Rightarrow> (Some e, pg')
      | (None, pg') \<Rightarrow> fillInstanceData pg' instance rec rest)"

definition updateInstance :: "page \<Rightarrow> ref \<Rightarrow> record_t \<Rightarrow> FieldMapping list \<Rightarrow> exn option \<times> page" where
  "updateInstance pg node rec ms =
     (if \<not> ref_has_children pg node then (None, pg) else fillInstanceData pg node rec ms)"

section \<open>Upsert driver\<close>

text \<open>
  The message \<open>sync-mapped-data\<close>. A field the sender left out is \<open>None\<close>; \<open>data\<close>
  is \<open>None\<close> also when it is not an array.
\<close>

record sync_msg =
  componentId :: string
  templateId :: "string option"
  data :: "record_t list option"
  mappings :: "FieldMapping list option"
  idField :: "string option"

text \<open>\<open>templateId || componentId\<close>\<close>

definition targetSourceId :: "sync_msg \<Rightarrow> string" where
  "targetSourceId msg =
     (case templateId msg of None \<Rightarrow> componentId msg
      | Some t \<Rightarrow> if t \<noteq> [] then t else componentId msg)"

text \<open>
  \<open>String(record[idField] || `row-${i}`)\<close>; an \<open>idField\<close> that is \<open>undefined\<close> reads
  the property named \<open>undefined\<close>.
\<close>

definition recordId_of :: "record_t \<Rightarrow> string option \<Rightarrow> nat \<Rightarrow> string" where
  "recordId_of rec idf i =
     (case get_prop rec (case idf of None \<Rightarrow> ''undefined'' | Some f \<Rightarrow> f) of
        None \<Rightarrow> ''row-'' @ string_of_nat i
      | Some v \<Rightarrow> if truthy (Some v) then String_js v else ''row-'' @ string_of_nat i)"

text \<open>
  The host's \<open>createInstance\<close> and \<open>clone\<close>: a copy of the template's subtree with
  all it carries at the moment of the call, an instance when made from a component.
\<close>

definition createInstance :: "node \<Rightarrow> node" where
  "createInstance t = Node ((attrs_of t)\<lparr>node_type := INSTANCE\<rparr>) (children t)"

definition clone :: "node \<Rightarrow> node" where
  "clone t = t"

text \<open>
  \<open>templateNode\<close> is a reference to a live node, not a copy of it. The node is either
  one of the current page, which the pass may write to (a tagged card can serve as the
  template), and is then named by its path; or a node elsewhere in the document, which
  the pass cannot reach and which is therefore given by its value. \<open>deref\<close> reads the
  node through the reference in the page as it is at that moment. A reference the host
  hands out names a node; for a path that names none \<open>deref\<close> yields \<open>None\<close>.
\<close>

datatype node_ref = OnPage ref | OffPage node

fun deref :: "page \<Rightarrow> node_ref \<Rightarrow> node option" where
  "deref pg (OnPage r) = get_at pg r"
| "deref pg (OffPage n) = Some n"

text \<open>What the handler fixes before the loop, and the variables the loop changes.\<close>

record sync_env =
  env_templateNode :: node_ref
  env_componentId :: string
  env_mappings :: "FieldMapping list"
  env_idField :: "string option"
  env_startY :: int
  env_cardWidth :: int
  env_cardHeight :: int

record loop_state =
  ls_page :: page
  existingMap :: index_t
  newIndex :: nat
  updatedCount :: nat
  createdCount :: nat
  affectedNodes :: "ref list"

text \<open>The update branch: every node listed under the identifier, in order.\<close>

fun update_all :: "record_t \<Rightarrow> FieldMapping list \<Rightarrow> loop_state \<Rightarrow> ref list \<Rightarrow> exn option \<times> loop_state" where
  "update_all rec ms st [] = (None, st)"
| "update_all rec ms st (existingNode # rest) =
     (case updateInstance (ls_page st) existingNode rec ms of
        (Some e, pg') \<Rightarrow> (Some e, st\<lparr>ls_page := pg'\<rparr>)
      | (None, pg') \<Rightarrow>
          update_all rec ms
            (st\<lparr>ls_page := pg', updatedCount := updatedCount st + 1,
                affectedNodes := affectedNodes st @ [existingNode]\<rparr>) rest)"

text \<open>
  The insert branch. The copy is made from the template as the page holds it when this
  record is reached, so it carries what earlier records of the same pass have written to
  the template. Reading through a reference that names no node is a \<open>TypeError\<close>, thrown
  before anything is appended.
\<close>

definition insert_new :: "sync_env \<Rightarrow> loop_state \<Rightarrow> string \<Rightarrow> record_t \<Rightarrow> exn option \<times> loop_state" where
  "insert_new env st recordId rec =
     (case deref (ls_page st) (env_templateNode env) of
        None \<Rightarrow> (Some TypeError, st)
      | Some templateNode \<Rightarrow>
     (let col = newIndex st mod CARDS_PER_ROW;
          row = newIndex st div CARDS_PER_ROW;
          x = int col * (env_cardWidth env + CARD_GAP);
          y = env_startY env + int row * (env_cardHeight env + CARD_GAP);
          instance = (if node_type (attrs_of templateNode) = COMPONENT
                      then createInstance templateNode
                      else clone templateNode);
          r = [length (ls_page st)];
          pg1 = ls_page st @ [instance];
          pg2 = upd_at (\<lambda>a. a\<lparr>node_x := x\<rparr>) r pg1;
          pg3 = upd_at (\<lambda>a. a\<lparr>node_y := y\<rparr>) r pg2;
          pg4 = upd_at (\<lambda>a. a\<lparr>notionId := recordId\<rparr>) r pg3;
          pg5 = upd_at (\<lambda>a. a\<lparr>sourceComponentId := env_componentId env\<rparr>) r pg4
      in case fillInstanceData pg5 r rec (env_mappings env) of
           (Some e, pg') \<Rightarrow> (Some e, st\<lparr>ls_page := pg'\<rparr>)
         | (None, pg') \<Rightarrow>
             (None, st\<lparr>ls_page := pg', createdCount := createdCount st + 1,
                       newIndex := newIndex st + 1,
                       affectedNodes := affectedNodes st @ [r]\<rparr>)))"

definition process_record :: "sync_env \<Rightarrow> nat \<Rightarrow> loop_state \<Rightarrow> record_t \<Rightarrow> exn option \<times> loop_state" where
  "process_record env i st rec =
     (let recordId = recordId_of rec (env_idField env) i;
          existingNodes = existingMap st recordId
      in case existingNodes of
           None \<Rightarrow> insert_new env st recordId rec
         | Some nodes \<Rightarrow>
             if length nodes > 0 then update_all rec (env_mappings env) st nodes
             else insert_new env st recordId rec)"

fun sync_loop :: "sync_env \<Rightarrow> nat \<Rightarrow> loop_state \<Rightarrow> record_t list \<Rightarrow> exn option \<times> loop_state" where
  "sync_loop env i st [] = (None, st)"
| "sync_loop env i st (rec # rest) =
     (case process_record env i st rec of
        (Some e, st') \<Rightarrow> (Some e, st')
      | (None, st') \<Rightarrow> sync_loop env (Suc i) st' rest)"

text \<open>
  The pass proper, once the inputs are validated and the template is resolved: index,
  insertion origin and card size are taken before the first record. The size is the
  template's then; every scene node has a width and a height, and the fallback of 100
  stands where the reference names no node.
\<close>

definition sync_pass :: "node_ref \<Rightarrow> page \<Rightarrow> sync_msg \<Rightarrow> record_t list \<Rightarrow> FieldMapping list \<Rightarrow> exn option \<times> loop_state" where
  "sync_pass templateNode pg msg d ms =
     sync_loop
       \<lparr>env_templateNode = templateNode, env_componentId = componentId msg,
        env_mappings = ms, env_idField = idField msg,
        env_startY = getNextAvailableY pg,
        env_cardWidth = (case deref pg templateNode of
                           Some t \<Rightarrow> node_width (attrs_of t) | None \<Rightarrow> 100),
        env_cardHeight = (case deref pg templateNode of
                            Some t \<Rightarrow> node_height (attrs_of t) | None \<Rightarrow> 100)\<rparr>
       0
       \<lparr>ls_page = pg, existingMap = buildExistingMap pg, newIndex = 0,
        updatedCount = 0, createdCount = 0, affectedNodes = []\<rparr>
       d"

datatype error_message = NoValidData | NoMappings | TemplateNotFound | SyncFailed exn

datatype ui_message = Error error_message | Done nat nat

text \<open>
  The handler: the message posted to the UI (\<open>Done created updated\<close> on success) and the
  page it leaves. \<open>getNodeById\<close> is the host's lookup of the template; it returns a
  reference to the node or \<open>null\<close>. An exception of the pass is caught and reported; the
  page keeps what the pass had done by then. Status messages and the final scroll of the
  viewport are left out.
\<close>

definition sync_mapped_data :: "(string \<Rightarrow> node_ref option) \<Rightarrow> page \<Rightarrow> sync_msg \<Rightarrow> ui_message \<times> page" where
  "sync_mapped_data getNodeById pg msg =
     (case data msg of
        None \<Rightarrow> (Error NoValidData, pg)
      | Some d \<Rightarrow>
          if length d = 0 then (Error NoValidData, pg)
          else (case mappings msg of
                  None \<Rightarrow> (Error NoMappings, pg)
                | Some ms \<Rightarrow>
                    if length ms = 0 then (Error NoMappings, pg)
                    else (case getNodeById (targetSourceId msg) of
                            None \<Rightarrow> (Error TemplateNotFound, pg)
                          | Some templateNode \<Rightarrow>
                              (case sync_pass templateNode pg msg d ms of
                                 (Some e, st) \<Rightarrow> (Error (SyncFailed e), ls_page st)
                               | (None, st) \<Rightarrow>
                                   (Done (createdCount st) (updatedCount st), ls_page st)))))"

section \<open>Vocabulary for the properties\<close>

text \<open>
  The part of a node that a pass never writes after insertion: everything but
  visibility, text and list style, for the node and its descendants.
\<close>

fun skeleton :: "node \<Rightarrow> node" where
  "skeleton (Node a cs) =
     Node (a\<lparr>visible := True, characters := [], listOptions := NONE\<rparr>) (map skeleton cs)"

text \<open>
  The nodes \<open>walk\<close> visits, in its order, each with its \<open>notionId\<close>; and the
  references the page holds under an identifier.
\<close>

fun entries :: "ref \<Rightarrow> node \<Rightarrow> (string \<times> ref) list"
  and entries_children :: "ref \<Rightarrow> nat \<Rightarrow> node list \<Rightarrow> (string \<times> ref) list" where
  "entries r (Node a cs) =
     (notionId a, r) # (if has_children (Node a cs) then entries_children r 0 cs else [])"
| "entries_children r i [] = []"
| "entries_children r i (c # cs) = entries (r @ [i]) c @ entries_children r (Suc i) cs"

definition tagged_with :: "page \<Rightarrow> string \<Rightarrow> ref list" where
  "tagged_with pg k = map snd (filter (\<lambda>e. fst e = k) (entries_children [] 0 pg))"

text \<open>\<open>existingMap.get(k)\<close> with \<open>undefined\<close> read as no nodes.\<close>

definition lookup :: "index_t \<Rightarrow> string \<Rightarrow> ref list" where
  "lookup m k = (case m k of None \<Rightarrow> [] | Some nodes \<Rightarrow> nodes)"

text \<open>The keys of a batch, record \<open>i\<close> of the loop first.\<close>

fun keys_from :: "string option \<Rightarrow> nat \<Rightarrow> record_t list \<Rightarrow> string list" where
  "keys_from idf i [] = []"
| "keys_from idf i (rec # rest) = recordId_of rec idf i # keys_from idf (Suc i) rest"

text \<open>Two rectangles share interior points.\<close>

definition rect_overlap :: "attrs \<Rightarrow> attrs \<Rightarrow> bool" where
  "rect_overlap a b =
     (node_x a < node_x b + node_width b \<and> node_x b < node_x a + node_width a \<and>
      node_y a < node_y b + node_height b \<and> node_y b < node_y a + node_height a)"

text \<open>An assignment that leaves the skeleton alone.\<close>

definition content_only :: "(attrs \<Rightarrow> attrs) \<Rightarrow> bool" where
  "content_only f = (\<forall>a. f a\<lparr>visible := True, characters := [], listOptions := NONE\<rparr>
                         = a\<lparr>visible := True, characters := [], listOptions := NONE\<rparr>)"

text \<open>Pushing a visited node onto the index, as \<open>walk\<close> does.\<close>

definition push_entry :: "index_t \<Rightarrow> string \<times> ref \<Rightarrow> index_t" where
  "push_entry m e =
     (if fst e \<noteq> []
      then m(fst e \<mapsto> (case m (fst e) of None \<Rightarrow> [] | Some existing \<Rightarrow> existing) @ [snd e])
      else m)"

text \<open>
  The element the insert branch appends for the \<open>k\<close>-th creation of a pass when the
  template reads as \<open>templateNode\<close>, after its position and its two tags are assigned
  and before its fields are filled; and the elements appended for a list of keys that
  miss the index, were the template to read the same for all of them.
\<close>

definition new_instance :: "node \<Rightarrow> sync_env \<Rightarrow> nat \<Rightarrow> string \<Rightarrow> node" where
  "new_instance templateNode env k recordId =
     (let t = (if node_type (attrs_of templateNode) = COMPONENT
               then createInstance templateNode
               else clone templateNode)
      in Node ((attrs_of t)
                 \<lparr>node_x := int (k mod CARDS_PER_ROW) * (env_cardWidth env + CARD_GAP),
                  node_y := env_startY env + int (k div CARDS_PER_ROW) * (env_cardHeight env + CARD_GAP),
                  notionId := recordId,
                  sourceComponentId := env_componentId env\<rparr>)
              (children t))"

fun instances_from :: "node \<Rightarrow> sync_env \<Rightarrow> nat \<Rightarrow> string list \<Rightarrow> node list" where
  "instances_from t env k [] = []"
| "instances_from t env k (recordId # rest) =
     new_instance t env k recordId # instances_from t env (Suc k) rest"

definition miss_keys :: "index_t \<Rightarrow> string list \<Rightarrow> string list" where
  "miss_keys m ks = filter (\<lambda>k. lookup m k = []) ks"

text \<open>The environment \<open>sync_pass\<close> fixes for its loop.\<close>

definition pass_env :: "node_ref \<Rightarrow> page \<Rightarrow> sync_msg \<Rightarrow> FieldMapping list \<Rightarrow> sync_env" where
  "pass_env templateNode pg msg ms =
     \<lparr>env_templateNode = templateNode, env_componentId = componentId msg,
      env_mappings = ms, env_idField = idField msg,
      env_startY = getNextAvailableY pg,
      env_cardWidth = (case deref pg templateNode of
                         Some t \<Rightarrow> node_width (attrs_of t) | None \<Rightarrow> 100),
      env_cardHeight = (case deref pg templateNode of
                          Some t \<Rightarrow> node_height (attrs_of t) | None \<Rightarrow> 100)\<rparr>"

text \<open>The keys of a batch that no node of the page carries.\<close>

definition new_keys :: "page \<Rightarrow> string list \<Rightarrow> string list" where
  "new_keys pg ks = filter (\<lambda>k. tagged_with pg k = []) ks"

text \<open>The bottom edge of a node.\<close>

definition bottom :: "node \<Rightarrow> int" where
  "bottom c = node_y (attrs_of c) + node_height (attrs_of c)"

text \<open>The \<open>k\<close>-th element that \<open>pg'\<close> holds beyond the elements of \<open>pg\<close>.\<close>

definition created_at :: "page \<Rightarrow> page \<Rightarrow> nat \<Rightarrow> attrs" where
  "created_at pg pg' k = attrs_of (pg' ! (length pg + k))"

text \<open>
  The two assignments the field applier makes, as data: to the visibility of a node, and
  to its text (with the list style that goes with the text).
\<close>

datatype assignment = SetVisible ref bool | SetText ref string

fun apply_write :: "assignment \<Rightarrow> page \<Rightarrow> page" where
  "apply_write (SetVisible r b) pg = upd_at (\<lambda>a. a\<lparr>visible := b\<rparr>) r pg"
| "apply_write (SetText r s) pg = upd_at (\<lambda>a. parseAndApplyListStyle a s) r pg"

definition apply_writes :: "assignment list \<Rightarrow> page \<Rightarrow> page" where
  "apply_writes ws pg = foldl (\<lambda>p w. apply_write w p) pg ws"

fun same_loc :: "assignment \<Rightarrow> assignment \<Rightarrow> bool" where
  "same_loc (SetVisible r b) (SetVisible r' b') = (r = r')"
| "same_loc (SetText r s) (SetText r' s') = (r = r')"
| "same_loc _ _ = False"

text \<open>
  The assignments one rule makes to an element, and those of a whole rule list; they are
  read off the page without changing it.
\<close>

definition is_text_at :: "page \<Rightarrow> ref \<Rightarrow> bool" where
  "is_text_at pg t = (case get_at pg t of None \<Rightarrow> False | Some n \<Rightarrow> node_type (attrs_of n) = TEXT)"

definition mapping_writes :: "page \<Rightarrow> ref \<Rightarrow> record_t \<Rightarrow> FieldMapping \<Rightarrow> assignment list" where
  "mapping_writes pg inst rec m =
     (case findChildByName pg inst (layerName m) of
        Inl e \<Rightarrow> []
      | Inr None \<Rightarrow> []
      | Inr (Some t) \<Rightarrow>
          (case get_prop rec (dataField m) of
             None \<Rightarrow> []
           | Some JNull \<Rightarrow> []
           | Some v \<Rightarrow>
               if \<not> parseBoolean v then [SetVisible t False]
               else if is_text_at pg t
               then (case v of JBool b \<Rightarrow> [SetVisible t True]
                     | _ \<Rightarrow> [SetVisible t True, SetText t (String_js v)])
               else [SetVisible t True]))"

definition fill_writes :: "page \<Rightarrow> ref \<Rightarrow> record_t \<Rightarrow> FieldMapping list \<Rightarrow> assignment list" where
  "fill_writes pg inst rec ms = concat (map (mapping_writes pg inst rec) ms)"

fun ref_of :: "assignment \<Rightarrow> ref" where
  "ref_of (SetVisible r b) = r"
| "ref_of (SetText r s) = r"

text \<open>A reference that starts at one of the elements of the page.\<close>

definition within :: "page \<Rightarrow> ref \<Rightarrow> bool" where
  "within pg r = (case r of [] \<Rightarrow> True | i # p \<Rightarrow> i < length pg)"

text \<open>
  The update branch run for a list of records, each with the nodes it is to update; and
  the assignments this makes.
\<close>

fun replay :: "FieldMapping list \<Rightarrow> page \<Rightarrow> (ref list \<times> record_t) list \<Rightarrow> page" where
  "replay ms pg [] = pg"
| "replay ms pg ((nodes, rec) # rest) =
     replay ms (foldl (\<lambda>p nd. snd (updateInstance p nd rec ms)) pg nodes) rest"

definition nodes_writes :: "FieldMapping list \<Rightarrow> page \<Rightarrow> ref list \<Rightarrow> record_t \<Rightarrow> assignment list" where
  "nodes_writes ms pg nodes rec = concat (map (\<lambda>nd. fill_writes pg nd rec ms) nodes)"

definition replay_writes :: "FieldMapping list \<Rightarrow> page \<Rightarrow> (ref list \<times> record_t) list \<Rightarrow> assignment list" where
  "replay_writes ms pg ops = concat (map (\<lambda>(nodes, rec). nodes_writes ms pg nodes rec) ops)"

text \<open>
  The nodes each key of a batch reaches in a pass that starts with a page of \<open>L\<close>
  elements and the index \<open>m\<close>: the nodes listed under the key, or else the element the
  pass appends for it. And the references of the appended elements that carry a key.
\<close>

fun targets :: "index_t \<Rightarrow> nat \<Rightarrow> string list \<Rightarrow> ref list list" where
  "targets m L [] = []"
| "targets m L (k # ks) =
     (if lookup m k \<noteq> [] then lookup m k # targets m L ks
      else [[L]] # targets m (Suc L) ks)"

fun new_refs :: "nat \<Rightarrow> string list \<Rightarrow> string \<Rightarrow> ref list" where
  "new_refs L [] k = []"
| "new_refs L (k' # ks) k = (if k' = k then [[L]] else []) @ new_refs (Suc L) ks k"

text \<open>
  The references \<open>walk\<close> reaches: every node on the way down to the node has the
  \<open>children\<close> property.
\<close>

fun walked_node :: "node \<Rightarrow> ref \<Rightarrow> bool" where
  "walked_node n [] = True"
| "walked_node n (i # p) =
     (has_children n \<and> i < length (children n) \<and> walked_node (children n ! i) p)"

definition walked :: "page \<Rightarrow> ref \<Rightarrow> bool" where
  "walked pg r = (case r of [] \<Rightarrow> False | i # p \<Rightarrow> i < length pg \<and> walked_node (pg ! i) p)"

section \<open>Example data\<close>

definition ex_text :: "string \<Rightarrow> string \<Rightarrow> node" where
  "ex_text nm s =
     Node \<lparr>node_name = nm, node_type = TEXT, node_x = 0, node_y = 0, node_width = 80,
           node_height = 20, visible = True, characters = s, listOptions = NONE,
           notionId = '''', sourceComponentId = ''''\<rparr> []"

definition ex_frame :: "string \<Rightarrow> string \<Rightarrow> int \<Rightarrow> int \<Rightarrow> node list \<Rightarrow> node" where
  "ex_frame nm nid px py cs =
     Node \<lparr>node_name = nm, node_type = FRAME, node_x = px, node_y = py, node_width = 100,
           node_height = 50, visible = True, characters = '''', listOptions = NONE,
           notionId = nid, sourceComponentId = ''''\<rparr> cs"

text \<open>
  A card template with one text layer, two records that carry the same identifier, one
  rule, and the message that syncs them; the host resolves \<open>c1\<close> to the template,
  which is not on the page.
\<close>

definition ex_template :: node where
  "ex_template = ex_frame ''Card'' '''' 0 0 [ex_text ''#t'' ''x0'']"

definition ex_rule :: FieldMapping where
  "ex_rule = \<lparr>layerName = ''#t'', dataField = ''t'', dataType = DT_text\<rparr>"

definition ex_records :: "record_t list" where
  "ex_records = [[''id'' \<mapsto> JStr ''a'', ''t'' \<mapsto> JStr ''x''],
                 [''id'' \<mapsto> JStr ''a'', ''t'' \<mapsto> JStr ''y'']]"

definition ex_msg :: sync_msg where
  "ex_msg = \<lparr>componentId = ''c1'', templateId = None, data = Some ex_records,
             mappings = Some [ex_rule], idField = Some ''id''\<rparr>"

definition ex_host :: "string \<Rightarrow> node_ref option" where
  "ex_host i = (if i = ''c1'' then Some (OffPage ex_template) else None)"

text \<open>A page that holds two cards tagged \<open>a\<close>, moved by hand to places of their own.\<close>

definition ex_page :: page where
  "ex_page = [ex_frame ''Card'' ''a'' 300 400 [ex_text ''#t'' ''old''],
              ex_frame ''Card'' ''a'' 10 700 [ex_text ''#t'' ''older'']]"

text \<open>A batch with one identifier the page knows and one it does not.\<close>

definition ex_msg_ab :: sync_msg where
  "ex_msg_ab = ex_msg\<lparr>data := Some [[''id'' \<mapsto> JStr ''a'', ''t'' \<mapsto> JStr ''x''],
                                   [''id'' \<mapsto> JStr ''b'', ''t'' \<mapsto> JStr ''z'']]\<rparr>"

text \<open>
  A template one of whose sublayers carries an identifier tag of its own, and a batch of
  one record with that identifier.
\<close>

definition ex_template_sub :: node where
  "ex_template_sub =
     ex_frame ''Card'' '''' 0 0
       [ex_text ''#t'' ''t0'', ex_frame ''Sub'' ''a'' 0 0 [ex_text ''#t'' ''i0'']]"

definition ex_host_sub :: "string \<Rightarrow> node_ref option" where
  "ex_host_sub i = (if i = ''c1'' then Some (OffPage ex_template_sub) else None)"

definition ex_msg_one :: sync_msg where
  "ex_msg_one = ex_msg\<lparr>data := Some [[''id'' \<mapsto> JStr ''a'', ''t'' \<mapsto> JStr ''x'']]\<rparr>"

text \<open>
  A page whose only card, tagged \<open>a\<close>, is itself the template: the host resolves \<open>c1\<close>
  to that node of the page. The batch updates the card and then asks for a new element,
  for a record that has no text of its own.
\<close>

definition ex_page_live :: page where
  "ex_page_live = [ex_frame ''Card'' ''a'' 300 400 [ex_text ''#t'' ''old'']]"

definition ex_host_live :: "string \<Rightarrow> node_ref option" where
  "ex_host_live i = (if i = ''c1'' then Some (OnPage [0]) else None)"

definition ex_msg_live :: sync_msg where
  "ex_msg_live = ex_msg\<lparr>data := Some [[''id'' \<mapsto> JStr ''a'', ''t'' \<mapsto> JStr ''x''],
                                     [''id'' \<mapsto> JStr ''b'']]\<rparr>"

lemmas ex_defs =
  ex_text_def ex_frame_def ex_page_def ex_template_def ex_rule_def ex_records_def ex_msg_def ex_msg_ab_def ex_host_def

lemmas sync_eval =
  sync_mapped_data_def sync_pass_def process_record_def insert_new_def updateInstance_def
  apply_mapping_def findChildByName_def ref_has_children_def get_at_def upd_at_def
  has_children_def targetSourceId_def recordId_of_def getNextAvailableY_def buildExistingMap_def
  createInstance_def clone_def parseAndApplyListStyle_def CARD_GAP_def CARDS_PER_ROW_def
  string_of_int_def get_prop_def Object_prototype_def Let_def

lemmas ex_more_defs =
  ex_template_sub_def ex_host_sub_def ex_msg_one_def ex_page_live_def ex_host_live_def ex_msg_live_def

section \<open>Strings: evaluation and the shape of a match\<close>

lemmas str_eval = trim_def toLowerCase_def lower_char_def is_space_def is_digit_def

lemmas pattern_eval =
  numberedPattern_test_def numberedPattern_match_def numberedPattern_strip_def

text \<open>
  The match function is the regular expression: a line matches with rest \<open>r\<close> exactly
  when it is digits, a dot, white space and \<open>r\<close>, where \<open>r\<close> does not go on with white
  space (the match is greedy).
\<close>

lemma numberedPattern_match_iff:
  "numberedPattern_match l = Some r \<longleftrightarrow>
     (\<exists>ds ws. ds \<noteq> [] \<and> (\<forall>c\<in>set ds. is_digit c) \<and> ws \<noteq> [] \<and> (\<forall>c\<in>set ws. is_space c) \<and>
        l = ds @ CHR ''.'' # ws @ r \<and> (r = [] \<or> \<not> is_space (hd r)))"
proof
  assume m: "numberedPattern_match l = Some r"
  let ?ds = "takeWhile is_digit l"
  from m have ds: "?ds \<noteq> []"
    by (auto simp: numberedPattern_match_def split: if_splits)
  from m obtain r0 where r0: "dropWhile is_digit l = CHR ''.'' # r0"
    and ws: "takeWhile is_space r0 \<noteq> []" and r: "r = dropWhile is_space r0"
    by (auto simp: numberedPattern_match_def split: if_splits list.splits)
  have "l = ?ds @ CHR ''.'' # takeWhile is_space r0 @ r"
    using r0 r by (metis takeWhile_dropWhile_id)
  moreover have "\<forall>c\<in>set ?ds. is_digit c" by (auto dest: set_takeWhileD)
  moreover have "\<forall>c\<in>set (takeWhile is_space r0). is_space c" by (auto dest: set_takeWhileD)
  moreover have "r = [] \<or> \<not> is_space (hd r)"
    unfolding r by (metis hd_dropWhile)
  ultimately show "\<exists>ds ws. ds \<noteq> [] \<and> (\<forall>c\<in>set ds. is_digit c) \<and> ws \<noteq> [] \<and> (\<forall>c\<in>set ws. is_space c) \<and>
        l = ds @ CHR ''.'' # ws @ r \<and> (r = [] \<or> \<not> is_space (hd r))"
    using ds ws by blast
next
  assume "\<exists>ds ws. ds \<noteq> [] \<and> (\<forall>c\<in>set ds. is_digit c) \<and> ws \<noteq> [] \<and> (\<forall>c\<in>set ws. is_space c) \<and>
        l = ds @ CHR ''.'' # ws @ r \<and> (r = [] \<or> \<not> is_space (hd r))"
  then obtain ds ws where ds: "ds \<noteq> []" "\<forall>c\<in>set ds. is_digit c"
    and ws: "ws \<noteq> []" "\<forall>c\<in>set ws. is_space c"
    and l: "l = ds @ CHR ''.'' # ws @ r" and r: "r = [] \<or> \<not> is_space (hd r)"
    by blast
  have nd: "\<not> is_digit CHR ''.''" by (simp add: is_digit_def)
  have t1: "takeWhile is_digit l = ds" and d1: "dropWhile is_digit l = CHR ''.'' # ws @ r"
    using ds nd unfolding l by (simp_all add: takeWhile_append2 dropWhile_append2)
  have t2: "takeWhile is_space (ws @ r) = ws" and d2: "dropWhile is_space (ws @ r) = r"
    using ws r by (cases r; simp add: takeWhile_append2 dropWhile_append2)+
  show "numberedPattern_match l = Some r"
    using ds ws by (simp add: numberedPattern_match_def t1 d1 t2 d2)
qed

lemma split_nl_ne: "split_nl s \<noteq> []"
  by (induction s) (auto split: list.splits)

lemma split_nl_no_nl: "l \<in> set (split_nl s) \<Longrightarrow> CHR 0x0A \<notin> set l"
  by (induction s arbitrary: l) (auto split: list.splits if_splits)

lemma join_nl_Cons_Cons: "join_nl ((c # l) # ls) = c # join_nl (l # ls)"
  by (cases ls) simp_all

lemma join_nl_Nil_Cons: "ls \<noteq> [] \<Longrightarrow> join_nl ([] # ls) = CHR 0x0A # join_nl ls"
  by (cases ls) simp_all

lemma join_split: "join_nl (split_nl s) = s"
  by (induction s) (auto split: list.splits simp: join_nl_Cons_Cons join_nl_Nil_Cons split_nl_ne)

lemma split_nl_single: "CHR 0x0A \<notin> set l \<Longrightarrow> split_nl l = [l]"
  by (induction l) auto

lemma split_nl_append: "CHR 0x0A \<notin> set l \<Longrightarrow> split_nl (l @ CHR 0x0A # r) = l # split_nl r"
  by (induction l) auto

lemma split_join:
  "ls \<noteq> [] \<Longrightarrow> \<forall>l\<in>set ls. CHR 0x0A \<notin> set l \<Longrightarrow> split_nl (join_nl ls) = ls"
  by (induction ls rule: join_nl.induct) (auto simp: split_nl_single split_nl_append)

lemma strip_no_nl: "CHR 0x0A \<notin> set l \<Longrightarrow> CHR 0x0A \<notin> set (numberedPattern_strip l)"
proof (cases "numberedPattern_match l")
  case None
  then show "CHR 0x0A \<notin> set l \<Longrightarrow> ?thesis" by (simp add: numberedPattern_strip_def)
next
  case (Some r)
  then obtain ds ws where "l = ds @ CHR ''.'' # ws @ r"
    unfolding numberedPattern_match_iff by blast
  with Some show "CHR 0x0A \<notin> set l \<Longrightarrow> ?thesis" by (simp add: numberedPattern_strip_def)
qed

lemma split_strip_join:
  "split_nl (join_nl (map numberedPattern_strip (split_nl raw))) =
   map numberedPattern_strip (split_nl raw)"
  by (rule split_join) (auto simp: split_nl_ne dest: split_nl_no_nl strip_no_nl)

section \<open>Claims about coercion and list detection\<close>

text \<open>
  C7, as the claim states it, fails: the table compares the lower-cased string itself
  with the tokens and sends every other non-empty string to true. A string of one
  space, and the string \<open>no\<close> with a space on either side, are non-empty and equal to no
  token in any case, and both coerce to false.
\<close>

theorem parseBoolean_untrimmed_counterexample:
  "'' '' \<noteq> '''' \<and>
   toLowerCase '' '' \<notin> {''true'', ''yes'', ''1'', ''checked'', ''ok'',
                          ''false'', ''no'', ''0'', ''unchecked'', '''', ''null''} \<and>
   \<not> parseBoolean (JStr '' '') \<and>
   toLowerCase '' no '' \<notin> {''true'', ''yes'', ''1'', ''checked'', ''ok'',
                          ''false'', ''no'', ''0'', ''unchecked'', '''', ''null''} \<and>
   \<not> parseBoolean (JStr '' no '')"
  by (simp add: str_eval)

text \<open>
  C7 (amended): booleans coerce to themselves and numbers to \<open>value \<noteq> 0\<close>; a string is
  lower-cased and trimmed of surrounding white space first, and then the five tokens
  true, yes, 1, checked, ok give true, the six tokens false, no, 0, unchecked, the empty
  string and null give false, and every other string (which is then non-empty after
  trimming) gives true. So a string is false exactly when its trimmed lower-case form is
  one of the six.
\<close>

theorem parseBoolean_table:
  "parseBoolean (JBool b) = b \<and>
   parseBoolean (JNum k) = (k \<noteq> 0) \<and>
   (trim (toLowerCase v) \<in> {''true'', ''yes'', ''1'', ''checked'', ''ok''} \<longrightarrow> parseBoolean (JStr v)) \<and>
   (trim (toLowerCase v) \<in> {''false'', ''no'', ''0'', ''unchecked'', '''', ''null''}
      \<longrightarrow> \<not> parseBoolean (JStr v)) \<and>
   (trim (toLowerCase v) \<notin> {''false'', ''no'', ''0'', ''unchecked'', '''', ''null''}
      \<longrightarrow> parseBoolean (JStr v))"
  by (auto simp: Let_def)

theorem parseBoolean_table_witness:
  "trim (toLowerCase ''Checked'') \<in> {''true'', ''yes'', ''1'', ''checked'', ''ok''} \<and>
   parseBoolean (JStr ''Checked'') \<and>
   trim (toLowerCase '' No '') \<in> {''false'', ''no'', ''0'', ''unchecked'', '''', ''null''} \<and>
   \<not> parseBoolean (JStr '' No '') \<and>
   trim (toLowerCase ''Q&A'') \<notin> {''false'', ''no'', ''0'', ''unchecked'', '''', ''null''} \<and>
   parseBoolean (JStr ''Q&A'') \<and>
   parseBoolean (JBool True) \<and> \<not> parseBoolean (JNum 0) \<and> parseBoolean (JNum 1)"
proof -
  have a: "trim (toLowerCase ''Checked'') = ''checked''" by (simp add: str_eval)
  have b: "trim (toLowerCase '' No '') = ''no''" by (simp add: str_eval)
  have c: "trim (toLowerCase ''Q&A'') = ''q&a''" by (simp add: str_eval)
  show ?thesis
    using parseBoolean_table [of True 0 "''Checked''"] parseBoolean_table [of True 1 "'' No ''"]
      parseBoolean_table [of True 1 "''Q&A''"]
    unfolding a b c by simp
qed

text \<open>
  C9: writing a text value splits it at newlines. When the first line starts with
  digits, a dot and white space, that prefix is taken off every line that has one, the
  lines are joined again (so the stored text, split at newlines, is the stripped lines
  one for one) and the whole range becomes an ordered list. Every other value is stored
  as it is and the range marked as no list. Nothing else of the node changes.
\<close>

theorem parseAndApplyListStyle_ordered_list:
  "(numberedPattern_test (hd (split_nl raw)) \<longrightarrow>
      characters (parseAndApplyListStyle t raw) = join_nl (map numberedPattern_strip (split_nl raw)) \<and>
      split_nl (characters (parseAndApplyListStyle t raw)) = map numberedPattern_strip (split_nl raw) \<and>
      listOptions (parseAndApplyListStyle t raw) = ORDERED) \<and>
   (\<not> numberedPattern_test (hd (split_nl raw)) \<longrightarrow>
      characters (parseAndApplyListStyle t raw) = raw \<and>
      listOptions (parseAndApplyListStyle t raw) = NONE) \<and>
   parseAndApplyListStyle t raw =
     t\<lparr>characters := characters (parseAndApplyListStyle t raw),
       listOptions := listOptions (parseAndApplyListStyle t raw)\<rparr>"
proof -
  obtain l0 ls where sp: "split_nl raw = l0 # ls"
    using split_nl_ne [of raw] by (cases "split_nl raw") auto
  have st: "split_nl (join_nl (numberedPattern_strip l0 # map numberedPattern_strip ls)) =
      numberedPattern_strip l0 # map numberedPattern_strip ls"
    using split_strip_join [of raw] by (simp add: sp)
  show ?thesis
    by (simp add: parseAndApplyListStyle_def sp st Let_def)
qed

theorem parseAndApplyListStyle_ordered_list_witness:
  "numberedPattern_test (hd (split_nl (''1. A'' @ [CHR 0x0A] @ ''2. B''))) \<and>
   characters (parseAndApplyListStyle (attrs_of (ex_text ''#body'' ''old''))
      (''1. A'' @ [CHR 0x0A] @ ''2. B'')) = ''A'' @ [CHR 0x0A] @ ''B'' \<and>
   listOptions (parseAndApplyListStyle (attrs_of (ex_text ''#body'' ''old''))
      (''1. A'' @ [CHR 0x0A] @ ''2. B'')) = ORDERED \<and>
   \<not> numberedPattern_test (hd (split_nl (''A'' @ [CHR 0x0A] @ ''B''))) \<and>
   characters (parseAndApplyListStyle (attrs_of (ex_text ''#body'' ''old''))
      (''A'' @ [CHR 0x0A] @ ''B'')) = ''A'' @ [CHR 0x0A] @ ''B'' \<and>
   listOptions (parseAndApplyListStyle (attrs_of (ex_text ''#body'' ''old''))
      (''A'' @ [CHR 0x0A] @ ''B'')) = NONE"
proof -
  have a: "numberedPattern_test (hd (split_nl (''1. A'' @ [CHR 0x0A] @ ''2. B'')))"
    by (simp add: pattern_eval str_eval)
  have b: "\<not> numberedPattern_test (hd (split_nl (''A'' @ [CHR 0x0A] @ ''B'')))"
    by (simp add: pattern_eval str_eval)
  have c: "join_nl (map numberedPattern_strip (split_nl (''1. A'' @ [CHR 0x0A] @ ''2. B''))) =
      ''A'' @ [CHR 0x0A] @ ''B''"
    by (simp add: pattern_eval str_eval)
  show ?thesis
    using a b c
      parseAndApplyListStyle_ordered_list
        [of "''1. A'' @ [CHR 0x0A] @ ''2. B''" "attrs_of (ex_text ''#body'' ''old'')"]
      parseAndApplyListStyle_ordered_list
        [of "''A'' @ [CHR 0x0A] @ ''B''" "attrs_of (ex_text ''#body'' ''old'')"]
    by simp
qed

section \<open>The tree, the skeleton and the index\<close>

subsection \<open>Reading and writing through references\<close>

lemma length_upd_at [simp]: "length (upd_at f r pg) = length pg"
  by (simp add: upd_at_def split: list.splits)

lemma get_node_upd_node_same:
  "get_node (upd_node f p n) p = map_option (\<lambda>m. Node (f (attrs_of m)) (children m)) (get_node n p)"
proof (induction p arbitrary: n)
  case Nil
  show ?case by (cases n) simp
next
  case (Cons i p)
  show ?case by (cases n) (simp add: Cons.IH)
qed

lemma get_at_upd_at_same:
  "get_at (upd_at f r pg) r = map_option (\<lambda>m. Node (f (attrs_of m)) (children m)) (get_at pg r)"
  by (cases r) (simp_all add: get_at_def upd_at_def get_node_upd_node_same)

lemma map_list_update_same: "(map g xs)[i := g (xs ! i)] = map g xs"
  by (metis list_update_id map_update)

lemma skeleton_upd_node: "content_only f \<Longrightarrow> skeleton (upd_node f p n) = skeleton n"
proof (induction p arbitrary: n)
  case Nil
  then show ?case by (cases n) (simp add: content_only_def)
next
  case (Cons i p)
  show ?case
  proof (cases n)
    case (Node a cs)
    show ?thesis
      using Cons.IH [OF Cons.prems, of "cs ! i"]
      by (simp add: Node map_update map_list_update_same)
  qed
qed

lemma skeleton_upd_at: "content_only f \<Longrightarrow> map skeleton (upd_at f r pg) = map skeleton pg"
  by (cases r) (simp_all add: upd_at_def map_update skeleton_upd_node map_list_update_same)


lemma skeleton_attrs:
  "attrs_of (skeleton n) = (attrs_of n)\<lparr>visible := True, characters := [], listOptions := NONE\<rparr>"
  by (cases n) simp

lemma skeleton_children: "children (skeleton n) = map skeleton (children n)"
  by (cases n) simp

lemma skeleton_eq_attrs:
  assumes "skeleton n = skeleton n'"
  shows "node_name (attrs_of n) = node_name (attrs_of n')"
    and "node_type (attrs_of n) = node_type (attrs_of n')"
    and "node_x (attrs_of n) = node_x (attrs_of n')"
    and "node_y (attrs_of n) = node_y (attrs_of n')"
    and "node_width (attrs_of n) = node_width (attrs_of n')"
    and "node_height (attrs_of n) = node_height (attrs_of n')"
    and "notionId (attrs_of n) = notionId (attrs_of n')"
    and "sourceComponentId (attrs_of n) = sourceComponentId (attrs_of n')"
    and "length (children n) = length (children n')"
proof -
  have a: "(attrs_of n)\<lparr>visible := True, characters := [], listOptions := NONE\<rparr>
      = (attrs_of n')\<lparr>visible := True, characters := [], listOptions := NONE\<rparr>"
    using assms skeleton_attrs by metis
  show "node_name (attrs_of n) = node_name (attrs_of n')"
    using arg_cong [OF a, of node_name] by simp
  show "node_type (attrs_of n) = node_type (attrs_of n')"
    using arg_cong [OF a, of node_type] by simp
  show "node_x (attrs_of n) = node_x (attrs_of n')"
    using arg_cong [OF a, of node_x] by simp
  show "node_y (attrs_of n) = node_y (attrs_of n')"
    using arg_cong [OF a, of node_y] by simp
  show "node_width (attrs_of n) = node_width (attrs_of n')"
    using arg_cong [OF a, of node_width] by simp
  show "node_height (attrs_of n) = node_height (attrs_of n')"
    using arg_cong [OF a, of node_height] by simp
  show "notionId (attrs_of n) = notionId (attrs_of n')"
    using arg_cong [OF a, of notionId] by simp
  show "sourceComponentId (attrs_of n) = sourceComponentId (attrs_of n')"
    using arg_cong [OF a, of sourceComponentId] by simp
  show "length (children n) = length (children n')"
    using arg_cong [OF assms, of "\<lambda>m. length (children m)"] by (simp add: skeleton_children)
qed

lemma has_children_skeleton [simp]: "has_children (skeleton n) = has_children n"
  by (simp add: has_children_def skeleton_attrs)

lemma has_children_cong: "skeleton n = skeleton n' \<Longrightarrow> has_children n = has_children n'"
  by (metis has_children_skeleton)

lemma get_node_skeleton: "get_node (skeleton n) p = map_option skeleton (get_node n p)"
  by (induction p arbitrary: n) (simp_all add: skeleton_children)

lemma get_at_skeleton: "get_at (map skeleton pg) r = map_option skeleton (get_at pg r)"
  by (cases r) (simp_all add: get_at_def get_node_skeleton)

lemma findChild_skeleton:
  "findChild (skeleton n) nm = findChild n nm"
  "findChild_from i (map skeleton cs) nm = findChild_from i cs nm"
  by (induction n nm and i cs nm rule: findChild_findChild_from.induct)
     (auto simp: skeleton_attrs split: option.splits)

lemma entries_skeleton:
  "entries r (skeleton n) = entries r n"
  "entries_children r i (map skeleton cs) = entries_children r i cs"
proof (induction r n and r i cs rule: entries_entries_children.induct)
  case (1 r a cs)
  have h: "has_children (Node (a\<lparr>visible := True, characters := [], listOptions := NONE\<rparr>) (map skeleton cs)) = has_children (Node a cs)"
    by (simp add: has_children_def)
  show ?case using 1 by (simp add: h)
qed simp_all

lemma walk_push:
  "walk r n m = foldl push_entry m (entries r n)"
  "walk_children r i cs m = foldl push_entry m (entries_children r i cs)"
proof (induction r n m and r i cs m rule: walk_walk_children.induct)
  case (1 r a cs m)
  define m1 where "m1 = push_entry m (notionId a, r)"
  have m1: "(if notionId a \<noteq> []
      then m(notionId a \<mapsto> (case m (notionId a) of None \<Rightarrow> [] | Some existing \<Rightarrow> existing) @ [r])
      else m) = m1"
    by (simp add: m1_def push_entry_def)
  have w: "walk r (Node a cs) m = (if has_children (Node a cs) then walk_children r 0 cs m1 else m1)"
    by (simp add: Let_def m1)
  show ?case
  proof (cases "has_children (Node a cs)")
    case True
    have "walk_children r 0 cs m1 = foldl push_entry m1 (entries_children r 0 cs)"
      using "1.IH" [OF refl refl True] unfolding m1 .
    then show ?thesis unfolding w using True by (simp add: m1_def)
  next
    case False
    then show ?thesis unfolding w by (simp add: m1_def)
  qed
qed simp_all

lemma buildExistingMap_push:
  "buildExistingMap pg = foldl push_entry Map.empty (entries_children [] 0 pg)"
  by (simp add: buildExistingMap_def walk_push)

lemma lookup_push_entry:
  "lookup (push_entry m e) k = lookup m k @ (if fst e = k \<and> k \<noteq> [] then [snd e] else [])"
  by (auto simp: lookup_def push_entry_def split: option.splits)

lemma lookup_foldl_push:
  "lookup (foldl push_entry m es) k =
     lookup m k @ (if k = [] then [] else map snd (filter (\<lambda>e. fst e = k) es))"
  by (induction es arbitrary: m) (auto simp: lookup_push_entry)

lemma lookup_empty: "lookup Map.empty k = []"
  by (simp add: lookup_def)

lemma lookup_buildExistingMap:
  "lookup (buildExistingMap pg) k = (if k = [] then [] else tagged_with pg k)"
  by (simp add: buildExistingMap_push lookup_foldl_push tagged_with_def lookup_empty)

lemma push_entry_Some_ne: "(\<forall>k ns. m k = Some ns \<longrightarrow> ns \<noteq> []) \<Longrightarrow> push_entry m e k = Some ns \<Longrightarrow> ns \<noteq> []"
  by (auto simp: push_entry_def split: if_splits)

subsection \<open>What the index lists\<close>

lemma entries_walked:
  "(k, q) \<in> set (entries r n) \<Longrightarrow>
     \<exists>p m. q = r @ p \<and> walked_node n p \<and> get_node n p = Some m \<and> notionId (attrs_of m) = k"
  "(k, q) \<in> set (entries_children r i cs) \<Longrightarrow>
     \<exists>j p m. q = r @ (i + j) # p \<and> j < length cs \<and> walked_node (cs ! j) p \<and>
             get_node (cs ! j) p = Some m \<and> notionId (attrs_of m) = k"
proof (induction r n and r i cs arbitrary: q and q rule: entries_entries_children.induct)
  case (1 r a cs)
  show ?case
  proof (cases "q = r \<and> k = notionId a")
    case True
    then show ?thesis by (intro exI [of _ "[]"] exI [of _ "Node a cs"]) simp
  next
    case False
    with "1.prems" have h: "has_children (Node a cs)" and m: "(k, q) \<in> set (entries_children r 0 cs)"
      by (auto split: if_splits)
    from "1.IH" [OF h m] obtain j p m where
      "q = r @ (0 + j) # p" "j < length cs" "walked_node (cs ! j) p" "get_node (cs ! j) p = Some m"
      "notionId (attrs_of m) = k"
      by blast
    then show ?thesis using h by (intro exI [of _ "j # p"] exI [of _ m]) simp
  qed
next
  case (2 r i)
  then show ?case by simp
next
  case (3 r i c cs)
  from "3.prems" consider "(k, q) \<in> set (entries (r @ [i]) c)"
    | "(k, q) \<in> set (entries_children r (Suc i) cs)" by auto
  then show ?case
  proof cases
    case 1
    from "3.IH"(1) [OF 1] obtain p m where "q = (r @ [i]) @ p" "walked_node c p" "get_node c p = Some m"
      "notionId (attrs_of m) = k" by blast
    then show ?thesis by (intro exI [of _ 0] exI [of _ p] exI [of _ m]) simp
  next
    case 2
    from "3.IH"(2) [OF 2] obtain j p m where "q = r @ (Suc i + j) # p" "j < length cs"
      "walked_node (cs ! j) p" "get_node (cs ! j) p = Some m" "notionId (attrs_of m) = k" by blast
    then show ?thesis by (intro exI [of _ "Suc j"] exI [of _ p] exI [of _ m]) simp
  qed
qed

lemma entries_children_nth:
  "j < length cs \<Longrightarrow> set (entries (r @ [i + j]) (cs ! j)) \<subseteq> set (entries_children r i cs)"
proof (induction cs arbitrary: i j)
  case Nil
  then show ?case by simp
next
  case (Cons c cs)
  show ?case
  proof (cases j)
    case 0
    then show ?thesis by simp
  next
    case (Suc j')
    with Cons.prems have "j' < length cs" by simp
    from Cons.IH [OF this, of "Suc i"] show ?thesis by (auto simp: Suc)
  qed
qed

lemma entries_complete:
  "walked_node n p \<Longrightarrow> get_node n p = Some m \<Longrightarrow> (notionId (attrs_of m), r @ p) \<in> set (entries r n)"
proof (induction p arbitrary: n r)
  case Nil
  then show ?case by (cases n) auto
next
  case (Cons i p)
  obtain a cs where n: "n = Node a cs" by (cases n)
  from Cons.prems have h: "has_children (Node a cs)" and i: "i < length cs"
    and w: "walked_node (cs ! i) p" and g: "get_node (cs ! i) p = Some m"
    by (simp_all add: n)
  from Cons.IH [OF w g, of "r @ [i]"]
  have "(notionId (attrs_of m), r @ i # p) \<in> set (entries (r @ [i]) (cs ! i))" by simp
  with entries_children_nth [OF i, of r 0]
  have "(notionId (attrs_of m), r @ i # p) \<in> set (entries_children r 0 cs)" by auto
  then show ?case using h by (simp add: n)
qed

lemma entries_distinct:
  "distinct (map snd (entries r n))"
  "distinct (map snd (entries_children r i cs))"
proof (induction r n and r i cs rule: entries_entries_children.induct)
  case (1 r a cs)
  have "r \<notin> snd ` set (entries_children r 0 cs)"
  proof
    assume "r \<in> snd ` set (entries_children r 0 cs)"
    then obtain k where "(k, r) \<in> set (entries_children r 0 cs)" by force
    from entries_walked(2) [OF this] show False by auto
  qed
  with 1 show ?case by simp
next
  case (2 r i)
  show ?case by simp
next
  case (3 r i c cs)
  have "snd ` set (entries (r @ [i]) c) \<inter> snd ` set (entries_children r (Suc i) cs) = {}"
  proof (rule ccontr)
    assume "snd ` set (entries (r @ [i]) c) \<inter> snd ` set (entries_children r (Suc i) cs) \<noteq> {}"
    then obtain q k k' where a: "(k, q) \<in> set (entries (r @ [i]) c)"
      and b: "(k', q) \<in> set (entries_children r (Suc i) cs)" by force
    from entries_walked(1) [OF a] obtain p where "q = (r @ [i]) @ p" by blast
    moreover from entries_walked(2) [OF b] obtain j p' where "q = r @ (Suc i + j) # p'" by blast
    ultimately show False by simp
  qed
  with 3 show ?case by simp
qed

text \<open>
  The nodes listed under a key are, each once, the nodes \<open>walk\<close> reaches that carry
  the key.
\<close>

lemma tagged_with_iff:
  "r \<in> set (tagged_with pg k) \<longleftrightarrow>
     walked pg r \<and> (\<exists>n. get_at pg r = Some n \<and> notionId (attrs_of n) = k)"
proof
  assume "r \<in> set (tagged_with pg k)"
  then have "(k, r) \<in> set (entries_children [] 0 pg)" by (auto simp: tagged_with_def)
  from entries_walked(2) [OF this]
  show "walked pg r \<and> (\<exists>n. get_at pg r = Some n \<and> notionId (attrs_of n) = k)"
    by (auto simp: get_at_def walked_def)
next
  assume a: "walked pg r \<and> (\<exists>n. get_at pg r = Some n \<and> notionId (attrs_of n) = k)"
  then obtain i p n where r: "r = i # p" and i: "i < length pg" and w: "walked_node (pg ! i) p"
    and g: "get_node (pg ! i) p = Some n" and k: "notionId (attrs_of n) = k"
    by (cases r) (auto simp: walked_def get_at_def)
  from entries_complete [OF w g, of "[i]"] have "(k, r) \<in> set (entries [i] (pg ! i))"
    by (simp add: r k)
  with entries_children_nth [OF i, of "[]" 0] have "(k, r) \<in> set (entries_children [] 0 pg)"
    by auto
  then show "r \<in> set (tagged_with pg k)" by (force simp: tagged_with_def)
qed

lemma tagged_with_distinct: "distinct (tagged_with pg k)"
  unfolding tagged_with_def using entries_distinct(2) [of "[]" 0 pg]
  by (simp add: distinct_map_filter)

lemma tagged_with_sound:
  "r \<in> set (tagged_with pg k) \<Longrightarrow> \<exists>n. get_at pg r = Some n \<and> notionId (attrs_of n) = k"
  by (simp add: tagged_with_iff)

lemma tagged_with_Nil [simp]: "tagged_with [] k = []"
  by (simp add: tagged_with_def)

subsection \<open>The field applier writes content only\<close>

lemma content_only_visible: "content_only (\<lambda>a. a\<lparr>visible := b\<rparr>)"
  by (simp add: content_only_def)

lemma content_only_text: "content_only (\<lambda>a. parseAndApplyListStyle a s)"
  by (simp add: content_only_def parseAndApplyListStyle_def Let_def)

lemma findChild_valid:
  "findChild n nm = Some p \<Longrightarrow> \<exists>m. get_node n p = Some m \<and> node_name (attrs_of m) = nm \<and> p \<noteq> []"
  "findChild_from i cs nm = Some p \<Longrightarrow>
     \<exists>j q m. p = (i + j) # q \<and> j < length cs \<and> get_node (cs ! j) q = Some m \<and> node_name (attrs_of m) = nm"
proof (induction n nm and i cs nm arbitrary: p and p rule: findChild_findChild_from.induct)
  case (1 a cs nm)
  then obtain j q m where "p = (0 + j) # q" "j < length cs" "get_node (cs ! j) q = Some m"
    "node_name (attrs_of m) = nm" by fastforce
  then show ?case by simp
next
  case (2 i nm)
  then show ?case by simp
next
  case (3 i c cs nm)
  show ?case
  proof (cases "node_name (attrs_of c) = nm")
    case True
    with "3.prems" have "p = [i]" by simp
    with True show ?thesis by (intro exI [of _ 0] exI [of _ "[]"] exI [of _ c]) simp
  next
    case False
    show ?thesis
    proof (cases "if has_children c then findChild c nm else None")
      case None
      with False "3.prems" have "findChild_from (Suc i) cs nm = Some p" by simp
      from "3.IH"(2) [OF False None this] obtain j q m where
        "p = (Suc i + j) # q" "j < length cs" "get_node (cs ! j) q = Some m" "node_name (attrs_of m) = nm"
        by blast
      then show ?thesis by (intro exI [of _ "Suc j"] exI [of _ q] exI [of _ m]) simp
    next
      case (Some q)
      then have hc: "has_children c" and fc: "findChild c nm = Some q" by (auto split: if_splits)
      from False Some "3.prems" have p: "p = i # q" by simp
      from "3.IH"(1) [OF False hc fc] obtain m where "get_node c q = Some m" "node_name (attrs_of m) = nm"
        by blast
      then show ?thesis using p by (intro exI [of _ 0] exI [of _ q] exI [of _ m]) simp
    qed
  qed
qed

lemma get_node_append:
  "get_node n (p @ q) = (case get_node n p of None \<Rightarrow> None | Some m \<Rightarrow> get_node m q)"
  by (induction p arbitrary: n) simp_all

lemma get_at_append:
  "get_at pg r = Some n \<Longrightarrow> get_at pg (r @ q) = get_node n q"
  by (cases r) (auto simp: get_at_def get_node_append split: if_splits)

lemma findChildByName_valid:
  assumes "findChildByName pg inst nm = Inr (Some t)"
  shows "\<exists>m. get_at pg t = Some m \<and> node_name (attrs_of m) = nm"
proof -
  from assms obtain n p where n: "get_at pg inst = Some n" and p: "findChild n nm = Some p" and t: "t = inst @ p"
    by (auto simp: findChildByName_def split: option.splits if_splits)
  from findChild_valid(1) [OF p] obtain m where "get_node n p = Some m" "node_name (attrs_of m) = nm"
    by blast
  then show ?thesis using get_at_append [OF n, of p] t by simp
qed

lemma get_at_skeleton_cong:
  assumes "map skeleton pg = map skeleton pg'"
  shows "get_at pg r = None \<Longrightarrow> get_at pg' r = None"
    and "get_at pg r = Some n \<Longrightarrow> \<exists>n'. get_at pg' r = Some n' \<and> skeleton n = skeleton n'"
proof -
  have g: "map_option skeleton (get_at pg r) = map_option skeleton (get_at pg' r)"
    using assms get_at_skeleton by metis
  show "get_at pg r = None \<Longrightarrow> get_at pg' r = None" using g by simp
  show "get_at pg r = Some n \<Longrightarrow> \<exists>n'. get_at pg' r = Some n' \<and> skeleton n = skeleton n'"
    using g by (cases "get_at pg' r") auto
qed

lemma findChildByName_skeleton:
  "map skeleton pg = map skeleton pg' \<Longrightarrow> findChildByName pg inst nm = findChildByName pg' inst nm"
proof -
  assume e: "map skeleton pg = map skeleton pg'"
  show ?thesis
  proof (cases "get_at pg inst")
    case None
    with get_at_skeleton_cong(1) [OF e] have "get_at pg' inst = None" by simp
    with None show ?thesis by (simp add: findChildByName_def)
  next
    case (Some n)
    with get_at_skeleton_cong(2) [OF e] obtain n' where n': "get_at pg' inst = Some n'"
      and s: "skeleton n = skeleton n'" by blast
    have "findChild n nm = findChild n' nm" using s findChild_skeleton(1) by metis
    then show ?thesis using Some n' has_children_cong [OF s] by (simp add: findChildByName_def)
  qed
qed

lemma ref_has_children_skeleton:
  "map skeleton pg = map skeleton pg' \<Longrightarrow> ref_has_children pg r = ref_has_children pg' r"
proof -
  assume e: "map skeleton pg = map skeleton pg'"
  show ?thesis
  proof (cases "get_at pg r")
    case None
    with get_at_skeleton_cong(1) [OF e] have "get_at pg' r = None" by simp
    with None show ?thesis by (simp add: ref_has_children_def)
  next
    case (Some n)
    with get_at_skeleton_cong(2) [OF e] obtain n' where n': "get_at pg' r = Some n'"
      and s: "skeleton n = skeleton n'" by blast
    then show ?thesis using Some has_children_cong [OF s] by (simp add: ref_has_children_def)
  qed
qed

lemma apply_mapping_skeleton:
  "map skeleton (snd (apply_mapping pg inst rec m)) = map skeleton pg"
  by (auto simp: apply_mapping_def Let_def skeleton_upd_at content_only_visible content_only_text
      split: sum.splits option.splits jsval.splits)

lemma apply_mapping_no_throw:
  "ref_has_children pg inst \<Longrightarrow> fst (apply_mapping pg inst rec m) = None"
  by (auto simp: apply_mapping_def Let_def findChildByName_def ref_has_children_def
      split: sum.splits option.splits jsval.splits if_splits)

lemma apply_mapping_throw:
  "\<not> ref_has_children pg inst \<Longrightarrow> apply_mapping pg inst rec m = (Some TypeError, pg)"
  by (auto simp: apply_mapping_def Let_def findChildByName_def ref_has_children_def
      split: sum.splits option.splits jsval.splits if_splits)

lemma fillInstanceData_skeleton:
  "map skeleton (snd (fillInstanceData pg inst rec ms)) = map skeleton pg"
proof (induction ms arbitrary: pg)
  case Nil
  show ?case by simp
next
  case (Cons m ms)
  obtain e pg' where a: "apply_mapping pg inst rec m = (e, pg')" by (cases "apply_mapping pg inst rec m")
  have s: "map skeleton pg' = map skeleton pg" using apply_mapping_skeleton [of pg inst rec m] a by simp
  show ?case using Cons.IH [of pg'] s by (cases e) (simp_all add: a)
qed

lemma fillInstanceData_no_throw:
  "ref_has_children pg inst \<Longrightarrow> fst (fillInstanceData pg inst rec ms) = None"
proof (induction ms arbitrary: pg)
  case Nil
  show ?case by simp
next
  case (Cons m ms)
  obtain e pg' where a: "apply_mapping pg inst rec m = (e, pg')" by (cases "apply_mapping pg inst rec m")
  have e: "e = None" using apply_mapping_no_throw [OF Cons.prems, of rec m] a by simp
  have s: "map skeleton pg' = map skeleton pg" using apply_mapping_skeleton [of pg inst rec m] a by simp
  have "ref_has_children pg' inst" using Cons.prems ref_has_children_skeleton [OF s] by simp
  from Cons.IH [OF this] show ?case by (simp add: a e)
qed

lemma fillInstanceData_throw:
  "\<not> ref_has_children pg inst \<Longrightarrow> ms \<noteq> [] \<Longrightarrow> fillInstanceData pg inst rec ms = (Some TypeError, pg)"
  by (cases ms) (simp_all add: apply_mapping_throw)

lemma updateInstance_no_throw: "fst (updateInstance pg r rec ms) = None"
  by (simp add: updateInstance_def fillInstanceData_no_throw)

lemma updateInstance_skeleton: "map skeleton (snd (updateInstance pg r rec ms)) = map skeleton pg"
  by (simp add: updateInstance_def fillInstanceData_skeleton)

lemma visible_parseAndApplyListStyle [simp]:
  "visible (parseAndApplyListStyle a s) = visible a"
  by (simp add: parseAndApplyListStyle_def Let_def)

lemma get_at_prefix_skeleton:
  assumes "map skeleton pg' = map skeleton pg @ xs" and "get_at pg r = Some n"
  shows "\<exists>n'. get_at pg' r = Some n' \<and> skeleton n' = skeleton n"
proof -
  from assms(2) obtain i p where r: "r = i # p" and i: "i < length pg"
    and g: "get_node (pg ! i) p = Some n"
    by (cases r) (auto simp: get_at_def split: if_splits)
  have len: "length pg' = length pg + length xs"
    using arg_cong [OF assms(1), of length] by simp
  have "map skeleton pg' ! i = (map skeleton pg @ xs) ! i" using assms(1) by simp
  then have sk: "skeleton (pg' ! i) = skeleton (pg ! i)"
    using i len by (simp add: nth_append)
  have "get_node (skeleton (pg' ! i)) p = Some (skeleton n)"
    unfolding sk by (simp add: get_node_skeleton g)
  then obtain n' where "get_node (pg' ! i) p = Some n'" "skeleton n' = skeleton n"
    by (auto simp: get_node_skeleton)
  then show ?thesis using r i len by (simp add: get_at_def)
qed

subsection \<open>The two branches and the loop\<close>

lemma update_all_effect:
  "update_all rec ms st nodes = (e, st') \<Longrightarrow>
     e = None \<and> map skeleton (ls_page st') = map skeleton (ls_page st) \<and>
     existingMap st' = existingMap st \<and> newIndex st' = newIndex st \<and>
     createdCount st' = createdCount st \<and>
     updatedCount st' = updatedCount st + length nodes \<and>
     affectedNodes st' = affectedNodes st @ nodes"
proof (induction nodes arbitrary: st)
  case Nil
  then show ?case by simp
next
  case (Cons nd nodes)
  obtain x pg' where u: "updateInstance (ls_page st) nd rec ms = (x, pg')"
    by (cases "updateInstance (ls_page st) nd rec ms")
  have x: "x = None" using updateInstance_no_throw [of "ls_page st" nd rec ms] u by simp
  have s: "map skeleton pg' = map skeleton (ls_page st)"
    using updateInstance_skeleton [of "ls_page st" nd rec ms] u by simp
  let ?st1 = "st\<lparr>ls_page := pg', updatedCount := updatedCount st + 1,
                affectedNodes := affectedNodes st @ [nd]\<rparr>"
  from Cons.prems have "update_all rec ms ?st1 nodes = (e, st')" by (simp add: u x)
  from Cons.IH [OF this] show ?case using s by simp
qed

lemma upd_at_last:
  "upd_at f [length pg] (pg @ [n]) = pg @ [Node (f (attrs_of n)) (children n)]"
  by (cases n) (simp add: upd_at_def)

lemma insert_new_page:
  "deref (ls_page st) (env_templateNode env) = Some t \<Longrightarrow>
   insert_new env st recordId rec =
     (case fillInstanceData (ls_page st @ [new_instance t env (newIndex st) recordId])
             [length (ls_page st)] rec (env_mappings env) of
        (Some e, pg') \<Rightarrow> (Some e, st\<lparr>ls_page := pg'\<rparr>)
      | (None, pg') \<Rightarrow>
          (None, st\<lparr>ls_page := pg', createdCount := createdCount st + 1,
                    newIndex := newIndex st + 1,
                    affectedNodes := affectedNodes st @ [[length (ls_page st)]]\<rparr>))"
  by (simp add: insert_new_def new_instance_def Let_def upd_at_last)

lemma insert_new_dangling:
  "deref (ls_page st) (env_templateNode env) = None \<Longrightarrow>
   insert_new env st recordId rec = (Some TypeError, st)"
  by (simp add: insert_new_def)

lemma insert_new_shape:
  assumes "insert_new env st recordId rec = (e, st')"
    and "deref (ls_page st) (env_templateNode env) = Some t"
  shows "map skeleton (ls_page st') =
       map skeleton (ls_page st) @ [skeleton (new_instance t env (newIndex st) recordId)]"
    and "existingMap st' = existingMap st" and "updatedCount st' = updatedCount st"
    and "e = None \<Longrightarrow> newIndex st' = newIndex st + 1 \<and> createdCount st' = createdCount st + 1 \<and>
        affectedNodes st' = affectedNodes st @ [[length (ls_page st)]]"
    and "e \<noteq> None \<Longrightarrow> newIndex st' = newIndex st \<and> createdCount st' = createdCount st \<and>
        affectedNodes st' = affectedNodes st"
proof -
  let ?pg = "ls_page st @ [new_instance t env (newIndex st) recordId]"
  obtain x pg' where f: "fillInstanceData ?pg [length (ls_page st)] rec (env_mappings env) = (x, pg')"
    by (cases "fillInstanceData ?pg [length (ls_page st)] rec (env_mappings env)")
  have s: "map skeleton pg' = map skeleton ?pg"
    using fillInstanceData_skeleton [of ?pg "[length (ls_page st)]" rec "env_mappings env"] f by simp
  have a: "(case x of None \<Rightarrow> (None, st\<lparr>ls_page := pg', createdCount := createdCount st + 1,
                    newIndex := newIndex st + 1,
                    affectedNodes := affectedNodes st @ [[length (ls_page st)]]\<rparr>)
            | Some e \<Rightarrow> (Some e, st\<lparr>ls_page := pg'\<rparr>)) = (e, st')"
    using assms(1) by (simp add: insert_new_page [OF assms(2)] f)
  show "map skeleton (ls_page st') =
       map skeleton (ls_page st) @ [skeleton (new_instance t env (newIndex st) recordId)]"
    using a s by (cases x) auto
  show "existingMap st' = existingMap st" using a by (cases x) auto
  show "updatedCount st' = updatedCount st" using a by (cases x) auto
  show "e = None \<Longrightarrow> newIndex st' = newIndex st + 1 \<and> createdCount st' = createdCount st + 1 \<and>
        affectedNodes st' = affectedNodes st @ [[length (ls_page st)]]"
    using a by (cases x) auto
  show "e \<noteq> None \<Longrightarrow> newIndex st' = newIndex st \<and> createdCount st' = createdCount st \<and>
        affectedNodes st' = affectedNodes st"
    using a by (cases x) auto
qed

lemma insert_new_effect:
  "insert_new env st recordId rec = (e, st') \<Longrightarrow>
     (\<exists>xs. map skeleton (ls_page st') = map skeleton (ls_page st) @ xs) \<and>
     existingMap st' = existingMap st \<and> updatedCount st' = updatedCount st \<and>
     (e = None \<longrightarrow> newIndex st' = newIndex st + 1 \<and> createdCount st' = createdCount st + 1 \<and>
        affectedNodes st' = affectedNodes st @ [[length (ls_page st)]]) \<and>
     (e \<noteq> None \<longrightarrow> newIndex st' = newIndex st \<and> createdCount st' = createdCount st \<and>
        affectedNodes st' = affectedNodes st)"
proof -
  assume a: "insert_new env st recordId rec = (e, st')"
  show ?thesis
  proof (cases "deref (ls_page st) (env_templateNode env)")
    case None
    from a insert_new_dangling [OF None, of recordId rec] show ?thesis by auto
  next
    case (Some t)
    note sh = insert_new_shape [OF a Some]
    from sh(1) have "\<exists>xs. map skeleton (ls_page st') = map skeleton (ls_page st) @ xs" by blast
    with sh(2-5) show ?thesis by blast
  qed
qed

lemma process_record_lookup:
  "process_record env i st rec =
     (let recordId = recordId_of rec (env_idField env) i in
      if lookup (existingMap st) recordId \<noteq> []
      then update_all rec (env_mappings env) st (lookup (existingMap st) recordId)
      else insert_new env st recordId rec)"
  by (auto simp: process_record_def lookup_def Let_def split: option.splits)

lemma instances_from_append:
  "instances_from t env k (ks @ ks') =
     instances_from t env k ks @ instances_from t env (k + length ks) ks'"
  by (induction ks arbitrary: k) simp_all

lemma length_instances_from [simp]: "length (instances_from t env k ks) = length ks"
  by (induction ks arbitrary: k) simp_all

subsection \<open>The template while the pass runs\<close>

lemma skeleton_new_instance:
  assumes "skeleton t' = skeleton t"
  shows "skeleton (new_instance t' env k rid) = skeleton (new_instance t env k rid)"
proof -
  obtain a cs where t: "t = Node a cs" by (cases t)
  obtain a' cs' where t': "t' = Node a' cs'" by (cases t')
  from assms have c: "map skeleton cs' = map skeleton cs"
    and a: "a'\<lparr>visible := True, characters := [], listOptions := NONE\<rparr>
          = a\<lparr>visible := True, characters := [], listOptions := NONE\<rparr>"
    by (simp_all add: t t')
  from a have ty: "node_type a' = node_type a"
    by (cases a, cases a') simp
  from a have u: "a'\<lparr>node_type := ty, node_x := x, node_y := y, notionId := rid, sourceComponentId := sc,
              visible := True, characters := [], listOptions := NONE\<rparr>
        = a\<lparr>node_type := ty, node_x := x, node_y := y, notionId := rid, sourceComponentId := sc,
              visible := True, characters := [], listOptions := NONE\<rparr>" for ty x y sc
    by (cases a, cases a') simp
  from a have v: "a'\<lparr>node_x := x, node_y := y, notionId := rid, sourceComponentId := sc,
              visible := True, characters := [], listOptions := NONE\<rparr>
        = a\<lparr>node_x := x, node_y := y, notionId := rid, sourceComponentId := sc,
              visible := True, characters := [], listOptions := NONE\<rparr>" for x y sc
    by (cases a, cases a') simp
  show ?thesis
    by (simp add: t t' new_instance_def createInstance_def clone_def Let_def c ty u v)
qed

lemma skeleton_instances_from:
  "skeleton t' = skeleton t \<Longrightarrow>
     map skeleton (instances_from t' env k ks) = map skeleton (instances_from t env k ks)"
proof (induction ks arbitrary: k)
  case Nil
  show ?case by simp
next
  case (Cons rid ks)
  from skeleton_new_instance [OF Cons.prems, of env k rid] Cons.IH [OF Cons.prems, of "Suc k"]
  show ?case by simp
qed

lemma deref_prefix_skeleton:
  assumes "map skeleton pg' = map skeleton pg @ xs" and "deref pg tref = Some t"
  shows "\<exists>t'. deref pg' tref = Some t' \<and> skeleton t' = skeleton t"
proof (cases tref)
  case (OnPage r)
  with assms(2) have "get_at pg r = Some t" by simp
  from get_at_prefix_skeleton [OF assms(1) this] show ?thesis by (simp add: OnPage)
next
  case (OffPage n)
  with assms(2) show ?thesis by simp
qed

subsection \<open>The loop\<close>

lemma process_record_effect:
  "process_record env i st rec = (e, st') \<Longrightarrow>
     (\<exists>xs. map skeleton (ls_page st') = map skeleton (ls_page st) @ xs) \<and>
     existingMap st' = existingMap st"
  using update_all_effect [of rec "env_mappings env" st _ e st']
    insert_new_effect [of env st _ rec e st']
  by (auto simp: process_record_lookup Let_def split: if_splits)

lemma sync_loop_effect:
  "sync_loop env i st recs = (e, st') \<Longrightarrow>
     existingMap st' = existingMap st \<and>
     (\<exists>xs. map skeleton (ls_page st') = map skeleton (ls_page st) @ xs) \<and>
     (e = None \<longrightarrow>
        createdCount st' = createdCount st +
          length (miss_keys (existingMap st) (keys_from (env_idField env) i recs)) \<and>
        newIndex st' = newIndex st +
          length (miss_keys (existingMap st) (keys_from (env_idField env) i recs)) \<and>
        updatedCount st' = updatedCount st +
          sum_list (map (\<lambda>k. length (lookup (existingMap st) k)) (keys_from (env_idField env) i recs)))"
proof (induction recs arbitrary: i st)
  case Nil
  then show ?case by (simp add: miss_keys_def)
next
  case (Cons rec recs)
  let ?k = "recordId_of rec (env_idField env) i"
  let ?m = "existingMap st"
  obtain x st1 where p: "process_record env i st rec = (x, st1)"
    by (cases "process_record env i st rec")
  from process_record_effect [OF p] obtain xs1 where
    xs1: "map skeleton (ls_page st1) = map skeleton (ls_page st) @ xs1" and m1: "existingMap st1 = ?m"
    by blast
  show ?case
  proof (cases x)
    case (Some ex)
    with Cons.prems p have e: "e = Some ex" "st' = st1" by simp_all
    show ?thesis using e xs1 m1 by simp
  next
    case None
    from Cons.prems have l: "sync_loop env (Suc i) st1 recs = (e, st')" by (simp add: p None)
    note ih = Cons.IH [OF l]
    from ih obtain xs2 where xs2: "map skeleton (ls_page st') = map skeleton (ls_page st1) @ xs2"
      by blast
    have pre: "\<exists>xs. map skeleton (ls_page st') = map skeleton (ls_page st) @ xs"
      using xs1 xs2 by simp
    show ?thesis
    proof (cases "lookup ?m ?k = []")
      case False
      then have u: "update_all rec (env_mappings env) st (lookup ?m ?k) = (x, st1)"
        using p by (simp add: process_record_lookup)
      note ue = update_all_effect [OF u]
      have mk: "miss_keys ?m (keys_from (env_idField env) i (rec # recs))
          = miss_keys ?m (keys_from (env_idField env) (Suc i) recs)"
        using False by (simp add: miss_keys_def)
      show ?thesis using ih ue pre unfolding mk by (simp add: add.assoc)
    next
      case True
      then have ins: "insert_new env st ?k rec = (x, st1)"
        using p by (simp add: process_record_lookup)
      note ie = insert_new_effect [OF ins]
      have mk: "miss_keys ?m (keys_from (env_idField env) i (rec # recs))
          = ?k # miss_keys ?m (keys_from (env_idField env) (Suc i) recs)"
        using True by (simp add: miss_keys_def)
      from ie None have c: "newIndex st1 = Suc (newIndex st)" "existingMap st1 = ?m"
        "createdCount st1 = createdCount st + 1" "updatedCount st1 = updatedCount st"
        by simp_all
      show ?thesis unfolding mk using ih pre c True by (simp add: lookup_def)
    qed
  qed
qed

lemma sync_loop_shape:
  assumes "sync_loop env i st recs = (e, st')"
    and "deref (ls_page st) (env_templateNode env) = Some t"
  shows "\<exists>n \<le> length (miss_keys (existingMap st) (keys_from (env_idField env) i recs)).
        map skeleton (ls_page st') =
          map skeleton (ls_page st) @
          take n (map skeleton (instances_from t env (newIndex st)
                    (miss_keys (existingMap st) (keys_from (env_idField env) i recs)))) \<and>
        (e = None \<longrightarrow> n = length (miss_keys (existingMap st) (keys_from (env_idField env) i recs)))"
  using assms
proof (induction recs arbitrary: i st t)
  case Nil
  then show ?case by (simp add: miss_keys_def)
next
  case (Cons rec recs)
  let ?k = "recordId_of rec (env_idField env) i"
  let ?m = "existingMap st"
  obtain x st1 where p: "process_record env i st rec = (x, st1)"
    by (cases "process_record env i st rec")
  from process_record_effect [OF p] obtain xs1 where
    xs1: "map skeleton (ls_page st1) = map skeleton (ls_page st) @ xs1" and m1: "existingMap st1 = ?m"
    by blast
  from deref_prefix_skeleton [OF xs1 Cons.prems(2)] obtain t1 where
    t1: "deref (ls_page st1) (env_templateNode env) = Some t1" "skeleton t1 = skeleton t" by blast
  show ?case
  proof (cases "lookup ?m ?k = []")
    case False
    then have u: "update_all rec (env_mappings env) st (lookup ?m ?k) = (x, st1)"
      using p by (simp add: process_record_lookup)
    note ue = update_all_effect [OF u]
    from ue have x: "x = None" by simp
    from Cons.prems have l: "sync_loop env (Suc i) st1 recs = (e, st')" by (simp add: p x)
    note ih = Cons.IH [OF l t1(1), unfolded skeleton_instances_from [OF t1(2)]]
    have mk: "miss_keys ?m (keys_from (env_idField env) i (rec # recs))
        = miss_keys ?m (keys_from (env_idField env) (Suc i) recs)"
      using False by (simp add: miss_keys_def)
    show ?thesis using ih ue unfolding mk by simp
  next
    case True
    then have ins: "insert_new env st ?k rec = (x, st1)"
      using p by (simp add: process_record_lookup)
    note ie = insert_new_shape [OF ins Cons.prems(2)]
    have mk: "miss_keys ?m (keys_from (env_idField env) i (rec # recs))
        = ?k # miss_keys ?m (keys_from (env_idField env) (Suc i) recs)"
      using True by (simp add: miss_keys_def)
    show ?thesis
    proof (cases x)
      case (Some ex)
      with Cons.prems p have e: "e = Some ex" "st' = st1" by simp_all
      show ?thesis unfolding mk using ie(1) e
        by (auto intro!: exI [of _ 1])
    next
      case None
      from Cons.prems have l: "sync_loop env (Suc i) st1 recs = (e, st')" by (simp add: p None)
      note ih = Cons.IH [OF l t1(1), unfolded skeleton_instances_from [OF t1(2)]]
      from ie None have c: "newIndex st1 = Suc (newIndex st)" "existingMap st1 = ?m"
        by simp_all
      from ih obtain n where n: "n \<le> length (miss_keys ?m (keys_from (env_idField env) (Suc i) recs))"
        "map skeleton (ls_page st') = map skeleton (ls_page st1) @
          take n (map skeleton (instances_from t env (Suc (newIndex st))
                    (miss_keys ?m (keys_from (env_idField env) (Suc i) recs))))"
        "e = None \<longrightarrow> n = length (miss_keys ?m (keys_from (env_idField env) (Suc i) recs))"
        unfolding c by blast
      have "\<exists>n' \<le> length (?k # miss_keys ?m (keys_from (env_idField env) (Suc i) recs)).
        map skeleton (ls_page st') =
          map skeleton (ls_page st) @
          take n' (map skeleton (instances_from t env (newIndex st)
                    (?k # miss_keys ?m (keys_from (env_idField env) (Suc i) recs)))) \<and>
        (e = None \<longrightarrow> n' = length (?k # miss_keys ?m (keys_from (env_idField env) (Suc i) recs)))"
        using n ie(1) by (intro exI [of _ "Suc n"]) simp
      then show ?thesis unfolding mk .
    qed
  qed
qed
subsection \<open>When a pass throws\<close>

lemma has_children_new_instance:
  "has_children (new_instance t env k recordId) = has_children t"
  by (auto simp: new_instance_def has_children_def createInstance_def clone_def Let_def)

lemma ref_has_children_last:
  "ref_has_children (pg @ [n]) [length pg] = has_children n"
  by (simp add: ref_has_children_def get_at_def)

lemma insert_new_no_throw:
  assumes "deref (ls_page st) (env_templateNode env) = Some t" and "has_children t"
  shows "fst (insert_new env st recordId rec) = None"
proof -
  let ?pg = "ls_page st @ [new_instance t env (newIndex st) recordId]"
  have "ref_has_children ?pg [length (ls_page st)]"
    using assms(2) by (simp add: ref_has_children_last has_children_new_instance)
  from fillInstanceData_no_throw [OF this, of rec "env_mappings env"]
  show ?thesis by (auto simp: insert_new_page [OF assms(1)] split: prod.splits option.splits)
qed

lemma process_record_no_throw:
  assumes "deref (ls_page st) (env_templateNode env) = Some t" and "has_children t"
  shows "fst (process_record env i st rec) = None"
proof (cases "lookup (existingMap st) (recordId_of rec (env_idField env) i) = []")
  case True
  then show ?thesis
    using insert_new_no_throw [OF assms] by (simp add: process_record_lookup)
next
  case False
  obtain x st1 where u: "update_all rec (env_mappings env) st
      (lookup (existingMap st) (recordId_of rec (env_idField env) i)) = (x, st1)"
    by (cases "update_all rec (env_mappings env) st
      (lookup (existingMap st) (recordId_of rec (env_idField env) i))")
  from update_all_effect [OF u] have "x = None" by simp
  then show ?thesis using False u by (simp add: process_record_lookup)
qed

lemma sync_loop_no_throw:
  assumes "deref (ls_page st) (env_templateNode env) = Some t" and "has_children t"
  shows "fst (sync_loop env i st recs) = None"
  using assms
proof (induction recs arbitrary: i st t)
  case Nil
  show ?case by simp
next
  case (Cons rec recs)
  obtain x st1 where p: "process_record env i st rec = (x, st1)"
    by (cases "process_record env i st rec")
  have x: "x = None" using process_record_no_throw [OF Cons.prems, of i rec] p by simp
  from process_record_effect [OF p] obtain xs1 where
    xs1: "map skeleton (ls_page st1) = map skeleton (ls_page st) @ xs1" by blast
  from deref_prefix_skeleton [OF xs1 Cons.prems(1)] obtain t1 where
    t1: "deref (ls_page st1) (env_templateNode env) = Some t1" "skeleton t1 = skeleton t" by blast
  have h: "has_children t1" using has_children_cong [OF t1(2)] Cons.prems(2) by simp
  from Cons.IH [OF t1(1) h, of "Suc i"] show ?case by (simp add: p x)
qed

subsection \<open>Keys\<close>

lemma string_of_nat_ne: "string_of_nat n \<noteq> []"
  by (subst string_of_nat.simps) simp

lemma String_js_truthy_ne: "truthy (Some v) \<Longrightarrow> String_js v \<noteq> []"
  by (cases v) (auto simp: string_of_int_def string_of_nat_ne)

lemma recordId_of_ne: "recordId_of rec idf i \<noteq> []"
  by (auto simp: recordId_of_def String_js_truthy_ne split: option.splits)

lemma length_keys_from [simp]: "length (keys_from idf i recs) = length recs"
  by (induction recs arbitrary: i) simp_all

lemma keys_from_ne: "k \<in> set (keys_from idf i recs) \<Longrightarrow> k \<noteq> []"
  by (induction recs arbitrary: i) (auto simp: recordId_of_ne [symmetric] recordId_of_ne)

lemma Object_prototype_truthy: "Object_prototype key = Some v \<Longrightarrow> truthy (Some v)"
  by (auto simp: Object_prototype_def split: if_splits)

lemma Object_prototype_cases:
  "Object_prototype key = Some v \<Longrightarrow> (\<exists>n. v = JFun n) \<or> v = JObject"
  by (cases v) (simp_all add: Object_prototype_def split: if_splits)

lemma String_js_inherited_ne_row:
  assumes "Object_prototype key = Some v"
  shows "String_js v \<noteq> ''row-'' @ s"
proof -
  from Object_prototype_cases [OF assms] show ?thesis
  proof
    assume "\<exists>n. v = JFun n"
    then obtain n where "v = JFun n" by blast
    then show ?thesis by simp
  next
    assume "v = JObject"
    then show ?thesis by simp
  qed
qed

lemma get_prop_own: "rec key = Some v \<Longrightarrow> get_prop rec key = Some v"
  by (simp add: get_prop_def)

lemma truthy_iff:
  "truthy x \<longleftrightarrow> x \<notin> {None, Some JNull, Some (JStr ''''), Some (JNum 0), Some (JBool False)}"
  by (cases x rule: truthy.cases) auto

subsection \<open>The pass as a whole\<close>

lemma sync_pass_loop:
  "sync_pass templateNode pg msg d ms =
     sync_loop (pass_env templateNode pg msg ms) 0
       \<lparr>ls_page = pg, existingMap = buildExistingMap pg, newIndex = 0,
        updatedCount = 0, createdCount = 0, affectedNodes = []\<rparr> d"
  by (simp add: sync_pass_def pass_env_def)

lemma miss_keys_build:
  "\<forall>k\<in>set ks. k \<noteq> [] \<Longrightarrow> miss_keys (buildExistingMap pg) ks = new_keys pg ks"
  unfolding miss_keys_def new_keys_def
  by (rule filter_cong) (simp_all add: lookup_buildExistingMap)

lemma sum_lookup_build:
  "\<forall>k\<in>set ks. k \<noteq> [] \<Longrightarrow>
     sum_list (map (\<lambda>k. length (lookup (buildExistingMap pg) k)) ks) =
     sum_list (map (\<lambda>k. length (tagged_with pg k)) ks)"
  by (rule arg_cong [where f = sum_list], rule map_cong) (simp_all add: lookup_buildExistingMap)

lemma sync_pass_effect:
  assumes "sync_pass templateNode pg msg d ms = (e, st)"
  shows "existingMap st = buildExistingMap pg"
    and "\<exists>xs. map skeleton (ls_page st) = map skeleton pg @ xs"
    and "e = None \<Longrightarrow> createdCount st = length (new_keys pg (keys_from (idField msg) 0 d))"
    and "e = None \<Longrightarrow> updatedCount st =
           sum_list (map (\<lambda>k. length (tagged_with pg k)) (keys_from (idField msg) 0 d))"
proof -
  let ?env = "pass_env templateNode pg msg ms"
  let ?st0 = "\<lparr>ls_page = pg, existingMap = buildExistingMap pg, newIndex = 0,
        updatedCount = 0, createdCount = 0, affectedNodes = []\<rparr>"
  have idf: "env_idField ?env = idField msg" by (simp add: pass_env_def)
  have ne: "\<forall>k\<in>set (keys_from (idField msg) 0 d). k \<noteq> []"
    using keys_from_ne by blast
  from assms have l: "sync_loop ?env 0 ?st0 d = (e, st)" by (simp add: sync_pass_loop)
  note eff = sync_loop_effect [OF l, unfolded idf, simplified, unfolded miss_keys_build [OF ne] sum_lookup_build [OF ne]]
  show "existingMap st = buildExistingMap pg" using eff by simp
  show "\<exists>xs. map skeleton (ls_page st) = map skeleton pg @ xs" using eff by blast
  show "e = None \<Longrightarrow> createdCount st = length (new_keys pg (keys_from (idField msg) 0 d))"
    using eff by simp
  show "e = None \<Longrightarrow> updatedCount st =
           sum_list (map (\<lambda>k. length (tagged_with pg k)) (keys_from (idField msg) 0 d))"
    using eff by simp
qed

lemma sync_pass_instances:
  assumes "sync_pass templateNode pg msg d ms = (e, st)" and "deref pg templateNode = Some t"
  shows "\<exists>n \<le> length (new_keys pg (keys_from (idField msg) 0 d)).
           map skeleton (ls_page st) =
             map skeleton pg @
             take n (map skeleton (instances_from t (pass_env templateNode pg msg ms) 0
                       (new_keys pg (keys_from (idField msg) 0 d)))) \<and>
           (e = None \<longrightarrow> n = length (new_keys pg (keys_from (idField msg) 0 d)))"
proof -
  let ?env = "pass_env templateNode pg msg ms"
  let ?st0 = "\<lparr>ls_page = pg, existingMap = buildExistingMap pg, newIndex = 0,
        updatedCount = 0, createdCount = 0, affectedNodes = []\<rparr>"
  have idf: "env_idField ?env = idField msg" by (simp add: pass_env_def)
  have ne: "\<forall>k\<in>set (keys_from (idField msg) 0 d). k \<noteq> []"
    using keys_from_ne by blast
  from assms(1) have l: "sync_loop ?env 0 ?st0 d = (e, st)" by (simp add: sync_pass_loop)
  have dr: "deref (ls_page ?st0) (env_templateNode ?env) = Some t"
    using assms(2) by (simp add: pass_env_def)
  from sync_loop_shape [OF l dr, unfolded idf, simplified, unfolded miss_keys_build [OF ne]]
  show ?thesis by blast
qed

lemma sync_pass_no_throw:
  assumes "deref pg templateNode = Some t" and "has_children t"
  shows "fst (sync_pass templateNode pg msg d ms) = None"
proof -
  let ?env = "pass_env templateNode pg msg ms"
  let ?st0 = "\<lparr>ls_page = pg, existingMap = buildExistingMap pg, newIndex = 0,
        updatedCount = 0, createdCount = 0, affectedNodes = []\<rparr>"
  have dr: "deref (ls_page ?st0) (env_templateNode ?env) = Some t"
    using assms(1) by (simp add: pass_env_def)
  from sync_loop_no_throw [OF dr assms(2), of 0 d] show ?thesis by (simp add: sync_pass_loop)
qed

lemma new_keys_partition:
  "length (new_keys pg ks) + length (filter (\<lambda>k. tagged_with pg k \<noteq> []) ks) = length ks"
  unfolding new_keys_def using sum_length_filter_compl [of "\<lambda>k. tagged_with pg k = []" ks] by simp

section \<open>Claims about validation and keys\<close>

text \<open>
  C10, as the claim states it, fails: a message that names no identifier field is not
  rejected. The pass starts, every record falls back to its row key, and two elements are
  created and counted.
\<close>

theorem sync_missing_idField_counterexample:
  "idField (ex_msg\<lparr>idField := None\<rparr>) = None \<and>
   fst (sync_mapped_data ex_host [] (ex_msg\<lparr>idField := None\<rparr>)) = Done 2 0 \<and>
   map (\<lambda>n. notionId (attrs_of n)) (snd (sync_mapped_data ex_host [] (ex_msg\<lparr>idField := None\<rparr>)))
     = [''row-0'', ''row-1'']"
  by (simp add: ex_defs sync_eval pattern_eval str_eval)

text \<open>
  C10 (amended): the handler reports a validation error exactly when the record set is
  missing or empty, the rule set is missing or empty, or the template node cannot be
  resolved; then the page is left as it was and no counts are reported. The identifier
  field is not validated: whether it is given has no influence on these errors.
\<close>

theorem sync_validation_atomic:
  "(fst (sync_mapped_data getNodeById pg msg) \<in> {Error NoValidData, Error NoMappings, Error TemplateNotFound})
     = (data msg = None \<or> data msg = Some [] \<or> mappings msg = None \<or> mappings msg = Some [] \<or>
        getNodeById (targetSourceId msg) = None) \<and>
   (data msg = None \<or> data msg = Some [] \<or> mappings msg = None \<or> mappings msg = Some [] \<or>
      getNodeById (targetSourceId msg) = None
    \<longrightarrow> snd (sync_mapped_data getNodeById pg msg) = pg) \<and>
   (fst (sync_mapped_data getNodeById pg (msg\<lparr>idField := f\<rparr>))
      \<in> {Error NoValidData, Error NoMappings, Error TemplateNotFound})
     = (fst (sync_mapped_data getNodeById pg msg)
      \<in> {Error NoValidData, Error NoMappings, Error TemplateNotFound})"
proof -
  have a: "\<And>m. (fst (sync_mapped_data getNodeById pg m) \<in> {Error NoValidData, Error NoMappings, Error TemplateNotFound})
     = (data m = None \<or> data m = Some [] \<or> mappings m = None \<or> mappings m = Some [] \<or>
        getNodeById (targetSourceId m) = None)"
    by (auto simp: sync_mapped_data_def split: option.splits prod.splits)
  have b: "data msg = None \<or> data msg = Some [] \<or> mappings msg = None \<or> mappings msg = Some [] \<or>
      getNodeById (targetSourceId msg) = None
    \<longrightarrow> snd (sync_mapped_data getNodeById pg msg) = pg"
    by (auto simp: sync_mapped_data_def split: option.splits prod.splits)
  have c: "targetSourceId (msg\<lparr>idField := f\<rparr>) = targetSourceId msg"
    by (simp add: targetSourceId_def split: option.splits)
  show ?thesis unfolding a using b c by simp
qed

theorem sync_validation_atomic_witness:
  "data (ex_msg\<lparr>data := Some []\<rparr>) = Some [] \<and>
   fst (sync_mapped_data ex_host [ex_template] (ex_msg\<lparr>data := Some []\<rparr>)) = Error NoValidData \<and>
   snd (sync_mapped_data ex_host [ex_template] (ex_msg\<lparr>data := Some []\<rparr>)) = [ex_template] \<and>
   mappings (ex_msg\<lparr>mappings := None\<rparr>) = None \<and>
   fst (sync_mapped_data ex_host [ex_template] (ex_msg\<lparr>mappings := None\<rparr>)) = Error NoMappings \<and>
   snd (sync_mapped_data ex_host [ex_template] (ex_msg\<lparr>mappings := None\<rparr>)) = [ex_template] \<and>
   ex_host (targetSourceId (ex_msg\<lparr>componentId := ''gone''\<rparr>)) = None \<and>
   fst (sync_mapped_data ex_host [ex_template] (ex_msg\<lparr>componentId := ''gone''\<rparr>)) = Error TemplateNotFound \<and>
   snd (sync_mapped_data ex_host [ex_template] (ex_msg\<lparr>componentId := ''gone''\<rparr>)) = [ex_template]"
proof -
  have a: "data (ex_msg\<lparr>data := Some []\<rparr>) = Some []" by simp
  have b: "mappings (ex_msg\<lparr>mappings := None\<rparr>) = None" by simp
  have c: "ex_host (targetSourceId (ex_msg\<lparr>componentId := ''gone''\<rparr>)) = None"
    by (simp add: ex_msg_def ex_host_def targetSourceId_def)
  have d: "fst (sync_mapped_data ex_host [ex_template] (ex_msg\<lparr>data := Some []\<rparr>)) = Error NoValidData"
    "fst (sync_mapped_data ex_host [ex_template] (ex_msg\<lparr>mappings := None\<rparr>)) = Error NoMappings"
    "fst (sync_mapped_data ex_host [ex_template] (ex_msg\<lparr>componentId := ''gone''\<rparr>)) = Error TemplateNotFound"
    by (simp_all add: sync_mapped_data_def ex_msg_def ex_host_def targetSourceId_def ex_records_def)
  show ?thesis
    using a b c d
      sync_validation_atomic [of ex_host "[ex_template]" "ex_msg\<lparr>data := Some []\<rparr>" None]
      sync_validation_atomic [of ex_host "[ex_template]" "ex_msg\<lparr>mappings := None\<rparr>" None]
      sync_validation_atomic [of ex_host "[ex_template]" "ex_msg\<lparr>componentId := ''gone''\<rparr>" None]
    by simp
qed

text \<open>
  A template without the \<open>children\<close> property passes validation. The first record that
  needs a new element has the element appended, placed and tagged, and then the field
  applier throws: the handler reports the failure, and the element stays on the page.
\<close>

lemma childless_template_partial_insert:
  "sync_mapped_data (\<lambda>i. Some (OffPage (ex_text ''T'' ''zz''))) [] ex_msg =
     (Error (SyncFailed TypeError),
      [Node ((attrs_of (ex_text ''T'' ''zz''))\<lparr>notionId := ''a'', sourceComponentId := ''c1''\<rparr>) []])"
  by (simp add: ex_defs sync_eval)

text \<open>
  C4, as the claim states it, fails: the fallback is taken for every falsy value, not
  only for an absent or empty one. A record at position 3 whose identifier is the number
  0 has its identifier field present, with the string form \<open>0\<close>, and is keyed \<open>row-3\<close>.
\<close>

theorem recordId_zero_counterexample:
  "[''id'' \<mapsto> JNum 0] ''id'' = Some (JNum 0) \<and>
   String_js (JNum 0) = ''0'' \<and>
   recordId_of [''id'' \<mapsto> JNum 0] (Some ''id'') 3 = ''row-3''"
  by (simp add: recordId_of_def get_prop_def string_of_int_def)

text \<open>
  C4 (amended): the key of the record at position \<open>i\<close> is the string form of what
  \<open>record[idField]\<close> reads when that is truthy, and the placeholder \<open>row-\<close> followed by
  \<open>i\<close> exactly when it is falsy. The read finds the record's own field, and where the
  record has no such field, the member of that name that every object inherits
  (\<open>constructor\<close>, \<open>toString\<close>, \<open>valueOf\<close>, ...); each of those is truthy. So the
  fallback is taken exactly when the own value is \<open>null\<close>, the empty string, the number
  0 or \<open>false\<close>, or when the field is absent and its name is not an inherited one; a
  record without the field whose name is inherited is keyed by the string form of the
  inherited member. The key is never empty. A pass that completes has taken exactly one
  branch for every record: the creations are the records whose key no node carries, the
  other records update every node that carries their key, and the two kinds of record
  add up to the batch. A pass over a template with children completes.
\<close>

theorem recordId_fallback:
  "(truthy (get_prop rec f) \<longrightarrow>
      (\<exists>v. get_prop rec f = Some v \<and> recordId_of rec (Some f) i = String_js v)) \<and>
   (\<not> truthy (get_prop rec f) \<longrightarrow> recordId_of rec (Some f) i = ''row-'' @ string_of_nat i) \<and>
   (\<not> truthy (get_prop rec f) \<longleftrightarrow>
      rec f \<in> {Some JNull, Some (JStr ''''), Some (JNum 0), Some (JBool False)} \<or>
      (rec f = None \<and> Object_prototype f = None)) \<and>
   (rec f \<noteq> None \<longrightarrow> get_prop rec f = rec f) \<and>
   (rec f = None \<longrightarrow> get_prop rec f = Object_prototype f) \<and>
   (\<forall>v. rec f = None \<and> Object_prototype f = Some v \<longrightarrow>
      recordId_of rec (Some f) i = String_js v \<and>
      recordId_of rec (Some f) i \<noteq> ''row-'' @ string_of_nat i) \<and>
   recordId_of rec (Some f) i \<noteq> [] \<and>
   (sync_pass templateNode pg msg d ms = (None, st) \<longrightarrow>
      createdCount st = length (filter (\<lambda>k. tagged_with pg k = []) (keys_from (idField msg) 0 d)) \<and>
      updatedCount st = sum_list (map (\<lambda>k. length (tagged_with pg k)) (keys_from (idField msg) 0 d)) \<and>
      createdCount st + length (filter (\<lambda>k. tagged_with pg k \<noteq> []) (keys_from (idField msg) 0 d))
        = length d) \<and>
   (deref pg templateNode = Some t \<and> has_children t \<longrightarrow>
      fst (sync_pass templateNode pg msg d ms) = None)"
proof -
  have a: "truthy (get_prop rec f) \<longrightarrow>
      (\<exists>v. get_prop rec f = Some v \<and> recordId_of rec (Some f) i = String_js v)"
    by (cases "get_prop rec f") (auto simp: recordId_of_def)
  have b: "\<not> truthy (get_prop rec f) \<longrightarrow> recordId_of rec (Some f) i = ''row-'' @ string_of_nat i"
    by (cases "get_prop rec f") (auto simp: recordId_of_def)
  have g1: "rec f \<noteq> None \<longrightarrow> get_prop rec f = rec f"
    by (auto simp: get_prop_def)
  have g2: "rec f = None \<longrightarrow> get_prop rec f = Object_prototype f"
    by (simp add: get_prop_def)
  have c: "\<not> truthy (get_prop rec f) \<longleftrightarrow>
      rec f \<in> {Some JNull, Some (JStr ''''), Some (JNum 0), Some (JBool False)} \<or>
      (rec f = None \<and> Object_prototype f = None)"
  proof (cases "rec f")
    case None
    show ?thesis
    proof (cases "Object_prototype f")
      case N: None
      show ?thesis using None N g2 by simp
    next
      case (Some v)
      show ?thesis using None Some g2 Object_prototype_truthy [OF Some] by simp
    qed
  next
    case (Some v)
    show ?thesis using Some g1 truthy_iff [of "Some v"] by auto
  qed
  have h: "\<forall>v. rec f = None \<and> Object_prototype f = Some v \<longrightarrow>
      recordId_of rec (Some f) i = String_js v \<and>
      recordId_of rec (Some f) i \<noteq> ''row-'' @ string_of_nat i"
  proof (intro allI impI)
    fix v assume p: "rec f = None \<and> Object_prototype f = Some v"
    then have t: "truthy (Some v)" using Object_prototype_truthy by blast
    have k: "recordId_of rec (Some f) i = String_js v"
      using p t by (simp add: recordId_of_def get_prop_def)
    have "String_js v \<noteq> ''row-'' @ string_of_nat i"
      using p String_js_inherited_ne_row [of f v] by simp
    with k show "recordId_of rec (Some f) i = String_js v \<and>
      recordId_of rec (Some f) i \<noteq> ''row-'' @ string_of_nat i" by simp
  qed
  have d: "sync_pass templateNode pg msg d ms = (None, st) \<longrightarrow>
      createdCount st = length (filter (\<lambda>k. tagged_with pg k = []) (keys_from (idField msg) 0 d)) \<and>
      updatedCount st = sum_list (map (\<lambda>k. length (tagged_with pg k)) (keys_from (idField msg) 0 d)) \<and>
      createdCount st + length (filter (\<lambda>k. tagged_with pg k \<noteq> []) (keys_from (idField msg) 0 d))
        = length d"
  proof
    assume p: "sync_pass templateNode pg msg d ms = (None, st)"
    have cr: "createdCount st = length (new_keys pg (keys_from (idField msg) 0 d))"
      using sync_pass_effect(3) [OF p] by simp
    have up: "updatedCount st = sum_list (map (\<lambda>k. length (tagged_with pg k)) (keys_from (idField msg) 0 d))"
      using sync_pass_effect(4) [OF p] by simp
    show "createdCount st = length (filter (\<lambda>k. tagged_with pg k = []) (keys_from (idField msg) 0 d)) \<and>
      updatedCount st = sum_list (map (\<lambda>k. length (tagged_with pg k)) (keys_from (idField msg) 0 d)) \<and>
      createdCount st + length (filter (\<lambda>k. tagged_with pg k \<noteq> []) (keys_from (idField msg) 0 d))
        = length d"
      using cr up new_keys_partition [of pg "keys_from (idField msg) 0 d"]
      by (simp add: new_keys_def)
  qed
  have e: "deref pg templateNode = Some t \<and> has_children t \<longrightarrow>
      fst (sync_pass templateNode pg msg d ms) = None"
    using sync_pass_no_throw [of pg templateNode t msg d ms] by blast
  from a b c g1 g2 h recordId_of_ne [of rec "Some f" i] d e show ?thesis by (intro conjI)
qed

theorem recordId_fallback_witness:
  "truthy (get_prop [''id'' \<mapsto> JNum 42] ''id'') \<and>
   recordId_of [''id'' \<mapsto> JNum 42] (Some ''id'') 7 = ''42'' \<and>
   \<not> truthy (get_prop [''name'' \<mapsto> JStr ''n''] ''id'') \<and>
   recordId_of [''name'' \<mapsto> JStr ''n''] (Some ''id'') 7 = ''row-7'' \<and>
   [''name'' \<mapsto> JStr ''n''] ''toString'' = None \<and>
   Object_prototype ''toString'' = Some (JFun ''toString'') \<and>
   recordId_of [''name'' \<mapsto> JStr ''n''] (Some ''toString'') 7 = String_js (JFun ''toString'') \<and>
   recordId_of [''name'' \<mapsto> JStr ''n''] (Some ''toString'') 7 \<noteq> ''row-7'' \<and>
   deref [] (OffPage ex_template) = Some ex_template \<and> has_children ex_template \<and>
   sync_pass (OffPage ex_template) [] ex_msg ex_records [ex_rule]
     = (None, snd (sync_pass (OffPage ex_template) [] ex_msg ex_records [ex_rule])) \<and>
   createdCount (snd (sync_pass (OffPage ex_template) [] ex_msg ex_records [ex_rule])) = 2 \<and>
   updatedCount (snd (sync_pass (OffPage ex_template) [] ex_msg ex_records [ex_rule])) = 0"
proof -
  let ?T = "OffPage ex_template"
  let ?st = "snd (sync_pass ?T [] ex_msg ex_records [ex_rule])"
  have h: "has_children ex_template" by (simp add: ex_defs has_children_def)
  have dr: "deref [] ?T = Some ex_template" by simp
  have t1: "truthy (get_prop [''id'' \<mapsto> JNum 42] ''id'')" by (simp add: get_prop_def)
  have t2: "\<not> truthy (get_prop [''name'' \<mapsto> JStr ''n''] ''id'')"
    by (simp add: get_prop_def Object_prototype_def)
  have g1: "get_prop [''id'' \<mapsto> JNum 42] ''id'' = Some (JNum 42)" by (simp add: get_prop_def)
  have o: "[''name'' \<mapsto> JStr ''n''] ''toString'' = None"
    "Object_prototype ''toString'' = Some (JFun ''toString'')"
    by (simp_all add: Object_prototype_def)
  have s: "string_of_int 42 = ''42''" by (simp add: string_of_int_def)
  have len: "length ex_records = 2" by (simp add: ex_records_def)
  have r: "''row-'' @ string_of_nat 7 = ''row-7''" by simp
  have k: "keys_from (idField ex_msg) 0 ex_records = [''a'', ''a'']"
    by (simp add: ex_defs recordId_of_def get_prop_def)
  have tw: "tagged_with [] ''a'' = []" by (simp add: tagged_with_def)
  note A = recordId_fallback [of "[''id'' \<mapsto> JNum 42]" "''id''" 7 ?T "[]" ex_msg ex_records "[ex_rule]" ?st ex_template]
  note B = recordId_fallback [of "[''name'' \<mapsto> JStr ''n'']" "''id''" 7 ?T "[]" ex_msg ex_records "[ex_rule]" ?st ex_template]
  note C = recordId_fallback [of "[''name'' \<mapsto> JStr ''n'']" "''toString''" 7 ?T "[]" ex_msg ex_records "[ex_rule]" ?st ex_template]
  from A have p: "sync_pass ?T [] ex_msg ex_records [ex_rule] = (None, ?st)"
    using h dr by (metis prod.collapse)
  have a1: "recordId_of [''id'' \<mapsto> JNum 42] (Some ''id'') 7 = ''42''"
    using A t1 g1 s by simp
  have b1: "recordId_of [''name'' \<mapsto> JStr ''n''] (Some ''id'') 7 = ''row-7''"
    using B t2 r by simp
  have c1: "recordId_of [''name'' \<mapsto> JStr ''n''] (Some ''toString'') 7 = String_js (JFun ''toString'')"
    "recordId_of [''name'' \<mapsto> JStr ''n''] (Some ''toString'') 7 \<noteq> ''row-7''"
    using C o r by simp_all
  have d1: "createdCount ?st = 2" "updatedCount ?st = 0"
    using A p unfolding k by (simp_all add: tw)
  from t1 a1 t2 b1 o c1 dr h p d1 show ?thesis by (intro conjI)
qed
section \<open>Claims about the field applier and about position\<close>

text \<open>
  C8: when the rule's sublayer is found and the record's value is present, the sublayer's
  visibility after the rule is the coerced value, whatever kind the rule declares (the
  kind is not read at all). When the coerced value is false, setting the visibility is
  the only thing the rule does: the sublayer keeps its text, its list style and its
  children as they were.
\<close>

theorem apply_mapping_visibility:
  assumes "findChildByName pg inst (layerName m) = Inr (Some t)"
    and "rec (dataField m) = Some v" and "v \<noteq> JNull"
  shows "fst (apply_mapping pg inst rec m) = None \<and>
    (\<exists>n'. get_at (snd (apply_mapping pg inst rec m)) t = Some n' \<and>
           visible (attrs_of n') = parseBoolean v) \<and>
    (\<not> parseBoolean v \<longrightarrow>
       snd (apply_mapping pg inst rec m) = upd_at (\<lambda>a. a\<lparr>visible := False\<rparr>) t pg \<and>
       (\<exists>n. get_at pg t = Some n \<and>
            get_at (snd (apply_mapping pg inst rec m)) t
              = Some (Node ((attrs_of n)\<lparr>visible := False\<rparr>) (children n)))) \<and>
    apply_mapping pg inst rec (m\<lparr>dataType := k\<rparr>) = apply_mapping pg inst rec m"
proof -
  from findChildByName_valid [OF assms(1)] obtain n where n: "get_at pg t = Some n" by blast
  let ?pg1 = "upd_at (\<lambda>a. a\<lparr>visible := parseBoolean v\<rparr>) t pg"
  have g1: "get_at ?pg1 t = Some (Node ((attrs_of n)\<lparr>visible := parseBoolean v\<rparr>) (children n))"
    by (simp add: get_at_upd_at_same n)
  have k: "apply_mapping pg inst rec (m\<lparr>dataType := k\<rparr>) = apply_mapping pg inst rec m"
    by (simp add: apply_mapping_def cong: sum.case_cong option.case_cong)
  show ?thesis
  proof (cases "parseBoolean v")
    case False
    have "apply_mapping pg inst rec m = (None, ?pg1)"
      using assms False by (cases v) (simp_all add: apply_mapping_def get_prop_def Let_def)
    then show ?thesis using False g1 n k by simp
  next
    case True
    have "apply_mapping pg inst rec m = (None, ?pg1) \<or>
          apply_mapping pg inst rec m
            = (None, upd_at (\<lambda>a. parseAndApplyListStyle a (String_js v)) t ?pg1)"
      using assms True by (cases v) (simp_all add: apply_mapping_def get_prop_def Let_def g1)
    then show ?thesis using True g1 k by (auto simp: get_at_upd_at_same)
  qed
qed

theorem apply_mapping_visibility_witness:
  "findChildByName [ex_template] [0] (layerName (ex_rule\<lparr>dataType := DT_image\<rparr>)) = Inr (Some [0, 0]) \<and>
   [''t'' \<mapsto> JStr ''No''] (dataField (ex_rule\<lparr>dataType := DT_image\<rparr>)) = Some (JStr ''No'') \<and>
   JStr ''No'' \<noteq> JNull \<and> \<not> parseBoolean (JStr ''No'') \<and>
   get_at (snd (apply_mapping [ex_template] [0] [''t'' \<mapsto> JStr ''No''] (ex_rule\<lparr>dataType := DT_image\<rparr>))) [0, 0]
     = Some (Node ((attrs_of (ex_text ''#t'' ''x0''))\<lparr>visible := False\<rparr>) [])"
proof -
  have a: "findChildByName [ex_template] [0] (layerName (ex_rule\<lparr>dataType := DT_image\<rparr>)) = Inr (Some [0, 0])"
    by (simp add: ex_defs findChildByName_def get_at_def has_children_def)
  have b: "[''t'' \<mapsto> JStr ''No''] (dataField (ex_rule\<lparr>dataType := DT_image\<rparr>)) = Some (JStr ''No'')"
    by (simp add: ex_defs)
  have c: "\<not> parseBoolean (JStr ''No'')" by (simp add: str_eval)
  have d: "get_at [ex_template] [0, 0] = Some (ex_text ''#t'' ''x0'')"
    by (simp add: ex_defs get_at_def)
  show ?thesis
    using apply_mapping_visibility [of "[ex_template]" "[0]" "ex_rule\<lparr>dataType := DT_image\<rparr>"
        "[0, 0]" "[''t'' \<mapsto> JStr ''No'']" "JStr ''No''" DT_text] a b c d
    by (auto simp: ex_text_def)
qed

text \<open>
  C2: whatever the pass does and however it ends, every node that was in the document
  before the pass is still there under the same reference, with the same x, y, width and
  height. The same holds for one update of a matched element and for one application of
  the rules. So positions and sizes are assigned to newly inserted elements only.
\<close>

theorem sync_preserves_position:
  assumes "get_at pg r = Some n"
  shows "(\<exists>n'. get_at (snd (sync_mapped_data getNodeById pg msg)) r = Some n' \<and>
            node_x (attrs_of n') = node_x (attrs_of n) \<and> node_y (attrs_of n') = node_y (attrs_of n) \<and>
            node_width (attrs_of n') = node_width (attrs_of n) \<and>
            node_height (attrs_of n') = node_height (attrs_of n)) \<and>
         (\<exists>n'. get_at (snd (updateInstance pg existingNode rec ms)) r = Some n' \<and>
            node_x (attrs_of n') = node_x (attrs_of n) \<and> node_y (attrs_of n') = node_y (attrs_of n) \<and>
            node_width (attrs_of n') = node_width (attrs_of n) \<and>
            node_height (attrs_of n') = node_height (attrs_of n)) \<and>
         (\<exists>n'. get_at (snd (fillInstanceData pg existingNode rec ms)) r = Some n' \<and>
            node_x (attrs_of n') = node_x (attrs_of n) \<and> node_y (attrs_of n') = node_y (attrs_of n) \<and>
            node_width (attrs_of n') = node_width (attrs_of n) \<and>
            node_height (attrs_of n') = node_height (attrs_of n))"
proof -
  have geo: "\<And>pg'. \<exists>xs. map skeleton pg' = map skeleton pg @ xs \<Longrightarrow>
      \<exists>n'. get_at pg' r = Some n' \<and>
            node_x (attrs_of n') = node_x (attrs_of n) \<and> node_y (attrs_of n') = node_y (attrs_of n) \<and>
            node_width (attrs_of n') = node_width (attrs_of n) \<and>
            node_height (attrs_of n') = node_height (attrs_of n)"
  proof -
    fix pg' assume "\<exists>xs. map skeleton pg' = map skeleton pg @ xs"
    then obtain xs where "map skeleton pg' = map skeleton pg @ xs" by blast
    from get_at_prefix_skeleton [OF this assms] obtain n' where
      n': "get_at pg' r = Some n'" "skeleton n' = skeleton n" by blast
    show "\<exists>n'. get_at pg' r = Some n' \<and>
            node_x (attrs_of n') = node_x (attrs_of n) \<and> node_y (attrs_of n') = node_y (attrs_of n) \<and>
            node_width (attrs_of n') = node_width (attrs_of n) \<and>
            node_height (attrs_of n') = node_height (attrs_of n)"
      using n'(1) skeleton_eq_attrs(3-6) [OF n'(2)] by simp
  qed
  have s: "\<exists>xs. map skeleton (snd (sync_mapped_data getNodeById pg msg)) = map skeleton pg @ xs"
  proof (cases "data msg = None \<or> data msg = Some [] \<or> mappings msg = None \<or> mappings msg = Some [] \<or>
      getNodeById (targetSourceId msg) = None")
    case True
    then have "snd (sync_mapped_data getNodeById pg msg) = pg"
      by (auto simp: sync_mapped_data_def split: option.splits prod.splits)
    then show ?thesis by simp
  next
    case False
    then obtain d ms tpl where v: "data msg = Some d" "d \<noteq> []" "mappings msg = Some ms" "ms \<noteq> []"
      "getNodeById (targetSourceId msg) = Some tpl" by auto
    obtain e st where p: "sync_pass tpl pg msg d ms = (e, st)" by (cases "sync_pass tpl pg msg d ms")
    have "snd (sync_mapped_data getNodeById pg msg) = ls_page st"
      using v p by (cases e) (simp_all add: sync_mapped_data_def)
    then show ?thesis using sync_pass_effect(2) [OF p] by simp
  qed
  have u: "\<exists>xs. map skeleton (snd (updateInstance pg existingNode rec ms)) = map skeleton pg @ xs"
    by (simp add: updateInstance_skeleton)
  have f: "\<exists>xs. map skeleton (snd (fillInstanceData pg existingNode rec ms)) = map skeleton pg @ xs"
    by (simp add: fillInstanceData_skeleton)
  show ?thesis using geo [OF s] geo [OF u] geo [OF f] by simp
qed

theorem sync_preserves_position_witness:
  "get_at ex_page [0] = Some (ex_frame ''Card'' ''a'' 300 400 [ex_text ''#t'' ''old'']) \<and>
   fst (sync_mapped_data ex_host ex_page ex_msg) = Done 0 4 \<and>
   (\<exists>n'. get_at (snd (sync_mapped_data ex_host ex_page ex_msg)) [0] = Some n' \<and>
      node_x (attrs_of n') = 300 \<and> node_y (attrs_of n') = 400 \<and>
      node_width (attrs_of n') = 100 \<and> node_height (attrs_of n') = 50) \<and>
   get_at (snd (sync_mapped_data ex_host ex_page ex_msg)) [0, 0] = Some (ex_text ''#t'' ''y'')"
proof -
  have a: "get_at ex_page [0] = Some (ex_frame ''Card'' ''a'' 300 400 [ex_text ''#t'' ''old''])"
    by (simp add: ex_page_def get_at_def)
  have b: "fst (sync_mapped_data ex_host ex_page ex_msg) = Done 0 4"
    "get_at (snd (sync_mapped_data ex_host ex_page ex_msg)) [0, 0] = Some (ex_text ''#t'' ''y'')"
    by (simp_all add: ex_defs sync_eval pattern_eval str_eval)
  show ?thesis
    using sync_preserves_position [OF a, of ex_host ex_msg "[0]" "\<lambda>k. None" "[]"] a b
    by (simp add: ex_frame_def)
qed

section \<open>Claims about duplicates and about the index\<close>

lemma update_all_page:
  "ls_page (snd (update_all rec ms st nodes)) =
     foldl (\<lambda>p r. snd (updateInstance p r rec ms)) (ls_page st) nodes"
proof (induction nodes arbitrary: st)
  case Nil
  show ?case by simp
next
  case (Cons nd nodes)
  obtain x pg' where u: "updateInstance (ls_page st) nd rec ms = (x, pg')"
    by (cases "updateInstance (ls_page st) nd rec ms")
  have x: "x = None" using updateInstance_no_throw [of "ls_page st" nd rec ms] u by simp
  show ?case using Cons.IH by (simp add: u x)
qed

text \<open>
  C3: let \<open>ps\<close> be the nodes of the document that carry a record's key: each node the
  index walk reaches with that tag, once. When there is at least one, a pass over that
  one record reports no creation and one update per node. The page it leaves is the page
  with the field applier run on each of these nodes in turn. All the rest is as before:
  no node is added, and each of the nodes is still under its reference (so under its
  parent) with its position, size and both tags.
\<close>

theorem sync_duplicate_identifiers:
  assumes "data msg = Some [rec]" and "mappings msg = Some ms" and "ms \<noteq> []"
    and "getNodeById (targetSourceId msg) = Some templateNode"
    and "tagged_with pg (recordId_of rec (idField msg) 0) = ps" and "ps \<noteq> []"
  shows "fst (sync_mapped_data getNodeById pg msg) = Done 0 (length ps) \<and>
    snd (sync_mapped_data getNodeById pg msg)
      = foldl (\<lambda>p r. snd (updateInstance p r rec ms)) pg ps \<and>
    length (snd (sync_mapped_data getNodeById pg msg)) = length pg \<and>
    map skeleton (snd (sync_mapped_data getNodeById pg msg)) = map skeleton pg \<and>
    distinct ps \<and>
    set ps = {r. walked pg r \<and>
                 (\<exists>n. get_at pg r = Some n \<and>
                      notionId (attrs_of n) = recordId_of rec (idField msg) 0)} \<and>
    (\<forall>r\<in>set ps. \<exists>n n'. get_at pg r = Some n \<and>
        get_at (snd (sync_mapped_data getNodeById pg msg)) r = Some n' \<and>
        notionId (attrs_of n) = recordId_of rec (idField msg) 0 \<and>
        notionId (attrs_of n') = notionId (attrs_of n) \<and>
        sourceComponentId (attrs_of n') = sourceComponentId (attrs_of n) \<and>
        node_x (attrs_of n') = node_x (attrs_of n) \<and> node_y (attrs_of n') = node_y (attrs_of n) \<and>
        node_width (attrs_of n') = node_width (attrs_of n) \<and>
        node_height (attrs_of n') = node_height (attrs_of n))"
proof -
  let ?k = "recordId_of rec (idField msg) 0"
  let ?env = "pass_env templateNode pg msg ms"
  let ?st0 = "\<lparr>ls_page = pg, existingMap = buildExistingMap pg, newIndex = 0,
        updatedCount = 0, createdCount = 0, affectedNodes = []\<rparr>"
  let ?R = "sync_mapped_data getNodeById pg msg"
  have lk: "lookup (buildExistingMap pg) ?k = ps"
    using assms(5) by (simp add: lookup_buildExistingMap recordId_of_ne)
  obtain x st where u: "update_all rec ms ?st0 ps = (x, st)" by (cases "update_all rec ms ?st0 ps")
  note ue = update_all_effect [OF u]
  have x: "x = None" using ue by simp
  have pr: "process_record ?env 0 ?st0 rec = (None, st)"
    using lk assms(6) u x by (simp add: process_record_lookup pass_env_def)
  have sp: "sync_pass templateNode pg msg [rec] ms = (None, st)"
    by (simp add: sync_pass_loop pr)
  have R: "?R = (Done (createdCount st) (updatedCount st), ls_page st)"
    using assms(1-4) sp by (simp add: sync_mapped_data_def)
  have pg': "ls_page st = foldl (\<lambda>p r. snd (updateInstance p r rec ms)) pg ps"
    using update_all_page [of rec ms ?st0 ps] u by simp
  have sk: "map skeleton (ls_page st) = map skeleton pg" using ue by simp
  have len: "length (ls_page st) = length pg"
    using arg_cong [OF sk, of length] by simp
  have each: "\<forall>r\<in>set ps. \<exists>n n'. get_at pg r = Some n \<and> get_at (ls_page st) r = Some n' \<and>
        notionId (attrs_of n) = ?k \<and>
        notionId (attrs_of n') = notionId (attrs_of n) \<and>
        sourceComponentId (attrs_of n') = sourceComponentId (attrs_of n) \<and>
        node_x (attrs_of n') = node_x (attrs_of n) \<and> node_y (attrs_of n') = node_y (attrs_of n) \<and>
        node_width (attrs_of n') = node_width (attrs_of n) \<and>
        node_height (attrs_of n') = node_height (attrs_of n)"
  proof
    fix r assume "r \<in> set ps"
    then have "r \<in> set (tagged_with pg ?k)" using assms(5) by simp
    from tagged_with_sound [OF this] obtain n where n: "get_at pg r = Some n" "notionId (attrs_of n) = ?k"
      by blast
    from get_at_skeleton_cong(2) [OF sk [symmetric] n(1)] obtain n' where
      n': "get_at (ls_page st) r = Some n'" "skeleton n = skeleton n'" by blast
    show "\<exists>n n'. get_at pg r = Some n \<and> get_at (ls_page st) r = Some n' \<and>
        notionId (attrs_of n) = ?k \<and>
        notionId (attrs_of n') = notionId (attrs_of n) \<and>
        sourceComponentId (attrs_of n') = sourceComponentId (attrs_of n) \<and>
        node_x (attrs_of n') = node_x (attrs_of n) \<and> node_y (attrs_of n') = node_y (attrs_of n) \<and>
        node_width (attrs_of n') = node_width (attrs_of n) \<and>
        node_height (attrs_of n') = node_height (attrs_of n)"
      using n n'(1) skeleton_eq_attrs [OF n'(2)] by simp
  qed
  have dis: "distinct ps" using assms(5) tagged_with_distinct by blast
  have st: "set ps = {r. walked pg r \<and> (\<exists>n. get_at pg r = Some n \<and> notionId (attrs_of n) = ?k)}"
    using assms(5) tagged_with_iff [of _ pg ?k] by blast
  have cnt: "fst ?R = Done 0 (length ps)" and pgr: "snd ?R = ls_page st"
    unfolding R using ue by simp_all
  from cnt pg' len sk dis st each show ?thesis unfolding pgr by (intro conjI)
qed

theorem sync_duplicate_identifiers_witness:
  "data (ex_msg\<lparr>data := Some [hd ex_records]\<rparr>) = Some [hd ex_records] \<and>
   tagged_with ex_page (recordId_of (hd ex_records) (Some ''id'') 0) = [[0], [1]] \<and>
   sync_mapped_data ex_host ex_page (ex_msg\<lparr>data := Some [hd ex_records]\<rparr>) =
     (Done 0 2,
      [ex_frame ''Card'' ''a'' 300 400 [ex_text ''#t'' ''x''],
       ex_frame ''Card'' ''a'' 10 700 [ex_text ''#t'' ''x'']])"
proof -
  let ?m = "ex_msg\<lparr>data := Some [hd ex_records]\<rparr>"
  have a: "data ?m = Some [hd ex_records]" by simp
  have b: "mappings ?m = Some [ex_rule]" by (simp add: ex_msg_def)
  have c: "ex_host (targetSourceId ?m) = Some (OffPage ex_template)"
    by (simp add: ex_msg_def ex_host_def targetSourceId_def)
  have i: "idField ?m = Some ''id''" by (simp add: ex_msg_def)
  have k: "recordId_of (hd ex_records) (Some ''id'') 0 = ''a''"
    by (simp add: ex_records_def recordId_of_def get_prop_def)
  have d: "tagged_with ex_page ''a'' = [[0], [1]]"
    by (simp add: tagged_with_def ex_page_def ex_frame_def ex_text_def has_children_def)
  have e: "foldl (\<lambda>p r. snd (updateInstance p r (hd ex_records) [ex_rule])) ex_page [[0], [1]]
    = [ex_frame ''Card'' ''a'' 300 400 [ex_text ''#t'' ''x''],
       ex_frame ''Card'' ''a'' 10 700 [ex_text ''#t'' ''x'']]"
    by (simp add: ex_defs sync_eval pattern_eval str_eval)
  from sync_duplicate_identifiers [of ?m "hd ex_records" "[ex_rule]" ex_host "OffPage ex_template" ex_page "[[0], [1]]"]
  have "fst (sync_mapped_data ex_host ex_page ?m) = Done 0 2 \<and>
    snd (sync_mapped_data ex_host ex_page ?m)
      = foldl (\<lambda>p r. snd (updateInstance p r (hd ex_records) [ex_rule])) ex_page [[0], [1]]"
    using a b c d unfolding i k by simp
  then show ?thesis using a d unfolding e k by (simp add: prod_eq_iff)
qed

text \<open>
  C5, as the claim states it, fails: no entry is appended for a newly inserted element.
  Two records with the new identifier \<open>a\<close> are synced into an empty page. After the pass
  the page holds two elements tagged \<open>a\<close>, both created, and the index of the pass
  holds nothing under \<open>a\<close>; the second record did not find the first one's element.
\<close>

theorem existingMap_not_appended_counterexample:
  "fst (sync_pass (OffPage ex_template) [] ex_msg ex_records [ex_rule]) = None \<and>
   createdCount (snd (sync_pass (OffPage ex_template) [] ex_msg ex_records [ex_rule])) = 2 \<and>
   updatedCount (snd (sync_pass (OffPage ex_template) [] ex_msg ex_records [ex_rule])) = 0 \<and>
   tagged_with (ls_page (snd (sync_pass (OffPage ex_template) [] ex_msg ex_records [ex_rule]))) ''a''
     = [[0], [1]] \<and>
   existingMap (snd (sync_pass (OffPage ex_template) [] ex_msg ex_records [ex_rule])) ''a'' = None"
  by (simp add: ex_defs sync_eval pattern_eval str_eval tagged_with_def)

text \<open>
  C5 (amended): the identity index built at pass start is read-only during the whole
  pass. Neither branch and no record changes it, so at the end it is still the index of
  the page the pass started from; nothing is appended for a newly inserted element and
  nothing is removed or reordered. Under every key it lists the nodes that carried the
  key at pass start, and a pass that completes has inserted one element for each record
  whose key no node carried then.
\<close>

theorem existingMap_read_only:
  "existingMap (snd (update_all rec ms s nodes)) = existingMap s \<and>
   existingMap (snd (insert_new env s recordId rec)) = existingMap s \<and>
   existingMap (snd (process_record env i s rec)) = existingMap s \<and>
   existingMap (snd (sync_loop env i s recs)) = existingMap s \<and>
   existingMap (snd (sync_pass templateNode pg msg d rules)) = buildExistingMap pg \<and>
   lookup (existingMap (snd (sync_pass templateNode pg msg d rules))) k
     = (if k = [] then [] else tagged_with pg k) \<and>
   (fst (sync_pass templateNode pg msg d rules) = None \<longrightarrow>
      createdCount (snd (sync_pass templateNode pg msg d rules))
        = length (filter (\<lambda>k. tagged_with pg k = []) (keys_from (idField msg) 0 d)))"
proof -
  have a: "existingMap (snd (update_all rec ms s nodes)) = existingMap s"
    using update_all_effect [of rec ms s nodes] by (cases "update_all rec ms s nodes") simp
  have b: "existingMap (snd (insert_new env s recordId rec)) = existingMap s"
    using insert_new_effect [of env s recordId rec] by (cases "insert_new env s recordId rec") simp
  have c: "existingMap (snd (process_record env i s rec)) = existingMap s"
    using update_all_effect [of rec "env_mappings env" s] insert_new_effect [of env s _ rec]
    by (cases "process_record env i s rec") (auto simp: process_record_lookup Let_def split: if_splits)
  have d: "existingMap (snd (sync_loop env i s recs)) = existingMap s"
    using sync_loop_effect [of env i s recs] by (cases "sync_loop env i s recs") simp
  obtain e st where p: "sync_pass templateNode pg msg d rules = (e, st)"
    by (cases "sync_pass templateNode pg msg d rules")
  have e: "existingMap st = buildExistingMap pg" using sync_pass_effect(1) [OF p] .
  have f: "e = None \<longrightarrow> createdCount st
        = length (filter (\<lambda>k. tagged_with pg k = []) (keys_from (idField msg) 0 d))"
    using sync_pass_effect(3) [OF p] by (simp add: new_keys_def)
  show ?thesis using a b c d e f by (simp add: p lookup_buildExistingMap)
qed

theorem existingMap_read_only_witness:
  "fst (sync_pass (OffPage ex_template) ex_page ex_msg ex_records [ex_rule]) = None \<and>
   lookup (existingMap (snd (sync_pass (OffPage ex_template) ex_page ex_msg ex_records [ex_rule]))) ''a''
     = [[0], [1]] \<and>
   createdCount (snd (sync_pass (OffPage ex_template) ex_page ex_msg ex_records [ex_rule])) = 0"
proof -
  have h: "fst (sync_pass (OffPage ex_template) ex_page ex_msg ex_records [ex_rule]) = None"
    by (rule sync_pass_no_throw [of _ _ ex_template]) (simp_all add: ex_defs has_children_def)
  have k: "keys_from (idField ex_msg) 0 ex_records = [''a'', ''a'']"
    by (simp add: ex_defs recordId_of_def get_prop_def)
  have d: "tagged_with ex_page ''a'' = [[0], [1]]"
    by (simp add: tagged_with_def ex_page_def ex_frame_def ex_text_def has_children_def)
  show ?thesis
    using existingMap_read_only [of "hd ex_records" "[ex_rule]" "snd (sync_pass (OffPage ex_template) ex_page ex_msg ex_records [ex_rule])"
        "[]" "pass_env (OffPage ex_template) ex_page ex_msg [ex_rule]" "''a''" 0 "[]" "OffPage ex_template" ex_page ex_msg
        ex_records "[ex_rule]" "''a''"] h
    unfolding k by (simp add: d lookup_buildExistingMap)
qed

section \<open>Claims about placement\<close>

lemma foldl_max_bounds:
  "m \<le> foldl (\<lambda>maxY child. if maxY < bottom child then bottom child else maxY) m pg \<and>
   (\<forall>c\<in>set pg. bottom c \<le> foldl (\<lambda>maxY child. if maxY < bottom child then bottom child else maxY) m pg) \<and>
   (foldl (\<lambda>maxY child. if maxY < bottom child then bottom child else maxY) m pg = m \<or>
    foldl (\<lambda>maxY child. if maxY < bottom child then bottom child else maxY) m pg \<in> bottom ` set pg)"
proof (induction pg arbitrary: m)
  case Nil
  show ?case by simp
next
  case (Cons c cs)
  show ?case
  proof (cases "m < bottom c")
    case True
    then show ?thesis using Cons.IH [of "bottom c"] by auto
  next
    case False
    then show ?thesis using Cons.IH [of m] by auto
  qed
qed

lemma foldl_max_bottom:
  "foldl (\<lambda>maxY child. if maxY < bottom child then bottom child else maxY) m pg
   = Max (insert m (bottom ` set pg))"
  using foldl_max_bounds [of m pg] by (intro Max_eqI [symmetric]) auto

lemma getNextAvailableY_Max:
  "getNextAvailableY pg =
     (if 0 < Max (insert 0 (bottom ` set pg)) then Max (insert 0 (bottom ` set pg)) + CARD_GAP * 2 else 0)"
proof -
  have eq: "(\<lambda>maxY child. let b = node_y (attrs_of child) + node_height (attrs_of child)
                          in if b > maxY then b else maxY)
      = (\<lambda>maxY child. if maxY < bottom child then bottom child else maxY)"
    by (intro ext) (simp add: bottom_def Let_def)
  show ?thesis unfolding getNextAvailableY_def eq by (simp add: foldl_max_bottom Let_def)
qed

lemma getNextAvailableY_ge: "c \<in> set pg \<Longrightarrow> bottom c \<le> getNextAvailableY pg"
proof -
  assume c: "c \<in> set pg"
  have m: "bottom c \<le> Max (insert 0 (bottom ` set pg))" using c by (simp add: Max_ge_iff)
  show ?thesis using m by (auto simp: getNextAvailableY_Max CARD_GAP_def)
qed

lemma getNextAvailableY_nonneg: "0 \<le> getNextAvailableY pg"
proof -
  have "0 \<le> Max (insert 0 (bottom ` set pg))" by simp
  then show ?thesis by (auto simp: getNextAvailableY_Max CARD_GAP_def)
qed

lemma instances_from_nth:
  "k < length ks \<Longrightarrow> instances_from t env j ks ! k = new_instance t env (j + k) (ks ! k)"
proof (induction ks arbitrary: j k)
  case Nil
  then show ?case by simp
next
  case (Cons a ks)
  then show ?case by (cases k) simp_all
qed

lemma new_instance_geometry:
  "node_x (attrs_of (new_instance t env k rid)) = int (k mod CARDS_PER_ROW) * (env_cardWidth env + CARD_GAP)"
  "node_y (attrs_of (new_instance t env k rid))
     = env_startY env + int (k div CARDS_PER_ROW) * (env_cardHeight env + CARD_GAP)"
  "node_width (attrs_of (new_instance t env k rid)) = node_width (attrs_of t)"
  "node_height (attrs_of (new_instance t env k rid)) = node_height (attrs_of t)"
  "notionId (attrs_of (new_instance t env k rid)) = rid"
  "sourceComponentId (attrs_of (new_instance t env k rid)) = env_componentId env"
  by (simp_all add: new_instance_def createInstance_def clone_def Let_def)

lemma mult_step: "a < b \<Longrightarrow> 0 \<le> c \<Longrightarrow> int a * c + c \<le> int b * c" for a b :: nat and c :: int
proof -
  assume "a < b" "0 \<le> c"
  then have "(int a + 1) * c \<le> int b * c" by (intro mult_right_mono) simp_all
  then show ?thesis by (simp add: algebra_simps)
qed

lemma grid_no_overlap:
  fixes W H :: int and j k :: nat
  assumes "j < k" and "0 \<le> W" and "0 \<le> H"
  shows "\<not> (int (k mod CARDS_PER_ROW) * (W + CARD_GAP) < int (j mod CARDS_PER_ROW) * (W + CARD_GAP) + W \<and>
            y0 + int (k div CARDS_PER_ROW) * (H + CARD_GAP) < y0 + int (j div CARDS_PER_ROW) * (H + CARD_GAP) + H)"
proof (cases "j div CARDS_PER_ROW = k div CARDS_PER_ROW")
  case True
  have "j mod CARDS_PER_ROW < k mod CARDS_PER_ROW"
  proof (rule ccontr)
    assume "\<not> j mod CARDS_PER_ROW < k mod CARDS_PER_ROW"
    then have "k mod CARDS_PER_ROW \<le> j mod CARDS_PER_ROW" by simp
    then have "k \<le> j"
      using True by (metis add_left_mono div_mult_mod_eq)
    with assms(1) show False by simp
  qed
  from mult_step [OF this, of "W + CARD_GAP"] assms(2)
  show ?thesis by (simp add: CARD_GAP_def)
next
  case False
  have "j div CARDS_PER_ROW \<le> k div CARDS_PER_ROW" using assms(1) by (simp add: div_le_mono)
  with False have "j div CARDS_PER_ROW < k div CARDS_PER_ROW" by simp
  from mult_step [OF this, of "H + CARD_GAP"] assms(3)
  show ?thesis by (simp add: CARD_GAP_def)
qed

lemma sync_pass_shape:
  assumes "sync_pass templateNode pg msg d ms = (e, st)" and "deref pg templateNode = Some t"
  shows "length pg \<le> length (ls_page st)"
    and "i < length pg \<Longrightarrow> skeleton (ls_page st ! i) = skeleton (pg ! i)"
    and "length pg + k < length (ls_page st) \<Longrightarrow>
          \<exists>rid. skeleton (ls_page st ! (length pg + k))
                  = skeleton (new_instance t (pass_env templateNode pg msg ms) k rid)"
    and "e = None \<Longrightarrow> length (ls_page st) = length pg + createdCount st"
proof -
  let ?nk = "new_keys pg (keys_from (idField msg) 0 d)"
  let ?ins = "instances_from t (pass_env templateNode pg msg ms) 0 ?nk"
  from sync_pass_instances [OF assms] obtain n where n: "n \<le> length ?nk"
    and sk: "map skeleton (ls_page st) = map skeleton pg @ take n (map skeleton ?ins)"
    and en: "e = None \<longrightarrow> n = length ?nk" by blast
  have len: "length (ls_page st) = length pg + n"
    using arg_cong [OF sk, of length] n by simp
  show "length pg \<le> length (ls_page st)" using len by simp
  show "skeleton (ls_page st ! i) = skeleton (pg ! i)" if "i < length pg"
  proof -
    have "map skeleton (ls_page st) ! i = (map skeleton pg @ take n (map skeleton ?ins)) ! i"
      using sk by simp
    then show ?thesis using that len by (simp add: nth_append)
  qed
  show "\<exists>rid. skeleton (ls_page st ! (length pg + k))
                  = skeleton (new_instance t (pass_env templateNode pg msg ms) k rid)"
    if "length pg + k < length (ls_page st)"
  proof -
    from that len have k: "k < n" by simp
    have "map skeleton (ls_page st) ! (length pg + k)
        = (map skeleton pg @ take n (map skeleton ?ins)) ! (length pg + k)"
      using sk by simp
    then have "skeleton (ls_page st ! (length pg + k)) = skeleton (?ins ! k)"
      using that k n by (simp add: nth_append)
    then show ?thesis using k n by (auto simp: instances_from_nth)
  qed
  show "length (ls_page st) = length pg + createdCount st" if "e = None"
    using that en len sync_pass_effect(3) [OF assms(1)] by simp
qed

lemma ceil_rows:
  fixes K :: nat
  shows "k < K \<Longrightarrow> k div 4 < (K + 3) div 4" and "0 < K \<Longrightarrow> (K - 1) div 4 + 1 = (K + 3) div 4"
  by arith+

text \<open>
  C6, as the claim states it, fails in its first part: the origin is not the maximum
  bottom edge plus two gaps for every document that has content. A page whose only
  element lies above the line \<open>y = 0\<close>, from \<open>-100\<close> to \<open>-50\<close>, is not empty; the
  claim puts the origin at \<open>-50 + 40 = -10\<close>, the function returns 0.
\<close>

theorem getNextAvailableY_negative_counterexample:
  "[ex_frame ''F'' '''' 0 (-100) []] \<noteq> [] \<and>
   Max (bottom ` set [ex_frame ''F'' '''' 0 (-100) []]) + 2 * CARD_GAP = -10 \<and>
   getNextAvailableY [ex_frame ''F'' '''' 0 (-100) []] = 0"
  by (simp add: getNextAvailableY_def ex_frame_def bottom_def CARD_GAP_def)

text \<open>
  C6 (amended): the insertion origin is the largest bottom edge \<open>y + height\<close> of the
  top-level children plus two gaps when that edge lies below \<open>y = 0\<close> (is positive),
  and zero otherwise, so also for an empty document. With four cards per row and a gap
  of 20, the \<open>k\<close>-th element a pass creates has the template's size and stands at
  column \<open>k mod 4\<close> and row \<open>k div 4\<close>: \<open>x = col * (width + gap)\<close> and
  \<open>y = origin + row * (height + gap)\<close>. For a template of non-negative width and height
  no two created elements overlap, and no created element overlaps a top-level element
  that was there before. A pass that completes appends as many elements as it counts
  creations. On an empty document, with a template that has children, every record is a
  creation; \<open>K\<close> records fill rows \<open>0\<close> to \<open>ceil(K/4) - 1\<close>, at most four in each.
\<close>

theorem new_element_placement:
  assumes "sync_pass templateNode pg msg d ms = (e, st)" and "deref pg templateNode = Some t"
    and "0 \<le> node_width (attrs_of t)" and "0 \<le> node_height (attrs_of t)"
  shows "getNextAvailableY pg =
      (if 0 < Max (insert 0 (bottom ` set pg)) then Max (insert 0 (bottom ` set pg)) + 2 * CARD_GAP
       else 0) \<and>
    getNextAvailableY [] = 0 \<and> CARDS_PER_ROW = 4 \<and> CARD_GAP = 20 \<and>
    (\<forall>k. length pg + k < length (ls_page st) \<longrightarrow>
       node_x (created_at pg (ls_page st) k)
         = int (k mod CARDS_PER_ROW) * (node_width (attrs_of t) + CARD_GAP) \<and>
       node_y (created_at pg (ls_page st) k)
         = getNextAvailableY pg + int (k div CARDS_PER_ROW) * (node_height (attrs_of t) + CARD_GAP) \<and>
       node_width (created_at pg (ls_page st) k) = node_width (attrs_of t) \<and>
       node_height (created_at pg (ls_page st) k) = node_height (attrs_of t)) \<and>
    (\<forall>j k. j < k \<and> length pg + k < length (ls_page st) \<longrightarrow>
       \<not> rect_overlap (created_at pg (ls_page st) j) (created_at pg (ls_page st) k)) \<and>
    (\<forall>i k. i < length pg \<and> length pg + k < length (ls_page st) \<longrightarrow>
       \<not> rect_overlap (attrs_of (pg ! i)) (created_at pg (ls_page st) k) \<and>
       \<not> rect_overlap (attrs_of (ls_page st ! i)) (created_at pg (ls_page st) k)) \<and>
    (e = None \<longrightarrow> length (ls_page st) = length pg + createdCount st) \<and>
    (pg = [] \<and> has_children t \<longrightarrow>
       e = None \<and> createdCount st = length d \<and> length (ls_page st) = length d \<and>
       (\<forall>k < length d. k div CARDS_PER_ROW < (length d + 3) div 4 \<and> k mod CARDS_PER_ROW < 4) \<and>
       (d \<noteq> [] \<longrightarrow> (length d - 1) div CARDS_PER_ROW + 1 = (length d + 3) div 4))"
proof -
  let ?W = "node_width (attrs_of t)"
  let ?H = "node_height (attrs_of t)"
  let ?pg' = "ls_page st"
  let ?env = "pass_env templateNode pg msg ms"
  note sh = sync_pass_shape [OF assms(1,2)]
  have geo: "node_x (created_at pg ?pg' k) = int (k mod CARDS_PER_ROW) * (?W + CARD_GAP) \<and>
       node_y (created_at pg ?pg' k) = getNextAvailableY pg + int (k div CARDS_PER_ROW) * (?H + CARD_GAP) \<and>
       node_width (created_at pg ?pg' k) = ?W \<and> node_height (created_at pg ?pg' k) = ?H"
    if "length pg + k < length ?pg'" for k
  proof -
    from sh(3) [OF that] obtain rid where
      s: "skeleton (?pg' ! (length pg + k)) = skeleton (new_instance t ?env k rid)" by blast
    show ?thesis
      unfolding created_at_def skeleton_eq_attrs(3-6) [OF s] new_instance_geometry
      by (simp add: pass_env_def assms(2))
  qed
  have old: "node_x (attrs_of (?pg' ! i)) = node_x (attrs_of (pg ! i)) \<and>
       node_y (attrs_of (?pg' ! i)) = node_y (attrs_of (pg ! i)) \<and>
       node_width (attrs_of (?pg' ! i)) = node_width (attrs_of (pg ! i)) \<and>
       node_height (attrs_of (?pg' ! i)) = node_height (attrs_of (pg ! i))"
    if "i < length pg" for i
    using skeleton_eq_attrs(3-6) [OF sh(2) [OF that]] by simp
  have a1: "getNextAvailableY pg =
      (if 0 < Max (insert 0 (bottom ` set pg)) then Max (insert 0 (bottom ` set pg)) + 2 * CARD_GAP
       else 0)"
    by (simp add: getNextAvailableY_Max mult.commute)
  have a2: "getNextAvailableY [] = 0" by (simp add: getNextAvailableY_def)
  have a3: "\<forall>j k. j < k \<and> length pg + k < length ?pg' \<longrightarrow>
       \<not> rect_overlap (created_at pg ?pg' j) (created_at pg ?pg' k)"
  proof (intro allI impI)
    fix j k assume jk: "j < k \<and> length pg + k < length ?pg'"
    then have j: "length pg + j < length ?pg'" by simp
    from grid_no_overlap [of j k ?W ?H "getNextAvailableY pg"] jk assms(3,4)
    show "\<not> rect_overlap (created_at pg ?pg' j) (created_at pg ?pg' k)"
      unfolding rect_overlap_def using geo [OF j] geo [of k] jk by simp
  qed
  have a4: "\<forall>i k. i < length pg \<and> length pg + k < length ?pg' \<longrightarrow>
       \<not> rect_overlap (attrs_of (pg ! i)) (created_at pg ?pg' k) \<and>
       \<not> rect_overlap (attrs_of (?pg' ! i)) (created_at pg ?pg' k)"
  proof (intro allI impI)
    fix i k assume ik: "i < length pg \<and> length pg + k < length ?pg'"
    then have "pg ! i \<in> set pg" by simp
    from getNextAvailableY_ge [OF this]
    have b: "node_y (attrs_of (pg ! i)) + node_height (attrs_of (pg ! i)) \<le> getNextAvailableY pg"
      by (simp add: bottom_def)
    have "0 \<le> int (k div CARDS_PER_ROW) * (?H + CARD_GAP)"
      using assms(4) by (simp add: CARD_GAP_def)
    then have "getNextAvailableY pg \<le> node_y (created_at pg ?pg' k)"
      using geo [of k] ik by simp
    with b show "\<not> rect_overlap (attrs_of (pg ! i)) (created_at pg ?pg' k) \<and>
       \<not> rect_overlap (attrs_of (?pg' ! i)) (created_at pg ?pg' k)"
      unfolding rect_overlap_def using old [of i] ik by simp
  qed
  have a5: "pg = [] \<and> has_children t \<longrightarrow>
       e = None \<and> createdCount st = length d \<and> length ?pg' = length d \<and>
       (\<forall>k < length d. k div CARDS_PER_ROW < (length d + 3) div 4 \<and> k mod CARDS_PER_ROW < 4) \<and>
       (d \<noteq> [] \<longrightarrow> (length d - 1) div CARDS_PER_ROW + 1 = (length d + 3) div 4)"
  proof
    assume h: "pg = [] \<and> has_children t"
    have e: "e = None" using sync_pass_no_throw [OF assms(2), of msg d ms] h assms(1) by simp
    have c: "createdCount st = length d"
      using sync_pass_effect(3) [OF assms(1) e] h by (simp add: new_keys_def)
    have l: "length ?pg' = length d" using sh(4) [OF e] c h by simp
    show "e = None \<and> createdCount st = length d \<and> length ?pg' = length d \<and>
       (\<forall>k < length d. k div CARDS_PER_ROW < (length d + 3) div 4 \<and> k mod CARDS_PER_ROW < 4) \<and>
       (d \<noteq> [] \<longrightarrow> (length d - 1) div CARDS_PER_ROW + 1 = (length d + 3) div 4)"
      using e c l ceil_rows(1) [of _ "length d"] ceil_rows(2) [of "length d"]
      by (simp add: CARDS_PER_ROW_def)
  qed
  have a6: "\<forall>k. length pg + k < length ?pg' \<longrightarrow>
       node_x (created_at pg ?pg' k) = int (k mod CARDS_PER_ROW) * (?W + CARD_GAP) \<and>
       node_y (created_at pg ?pg' k) = getNextAvailableY pg + int (k div CARDS_PER_ROW) * (?H + CARD_GAP) \<and>
       node_width (created_at pg ?pg' k) = ?W \<and> node_height (created_at pg ?pg' k) = ?H"
    using geo by blast
  have a7: "e = None \<longrightarrow> length ?pg' = length pg + createdCount st"
    using sh(4) by blast
  have a8: "CARDS_PER_ROW = 4" "CARD_GAP = 20"
    by (simp_all add: CARDS_PER_ROW_def CARD_GAP_def)
  from a1 a2 a8 a6 a3 a4 a7 a5 show ?thesis by (intro conjI)
qed

theorem new_element_placement_witness:
  "deref [ex_frame ''Old'' '''' 50 30 []] (OffPage ex_template) = Some ex_template \<and>
   0 \<le> node_width (attrs_of ex_template) \<and> 0 \<le> node_height (attrs_of ex_template) \<and>
   length (ls_page (snd (sync_pass (OffPage ex_template) [ex_frame ''Old'' '''' 50 30 []] ex_msg ex_records [ex_rule]))) = 3 \<and>
   getNextAvailableY [ex_frame ''Old'' '''' 50 30 []] = 120 \<and>
   node_x (created_at [ex_frame ''Old'' '''' 50 30 []]
      (ls_page (snd (sync_pass (OffPage ex_template) [ex_frame ''Old'' '''' 50 30 []] ex_msg ex_records [ex_rule]))) 1) = 120 \<and>
   node_y (created_at [ex_frame ''Old'' '''' 50 30 []]
      (ls_page (snd (sync_pass (OffPage ex_template) [ex_frame ''Old'' '''' 50 30 []] ex_msg ex_records [ex_rule]))) 1) = 120 \<and>
   \<not> rect_overlap
      (created_at [ex_frame ''Old'' '''' 50 30 []]
        (ls_page (snd (sync_pass (OffPage ex_template) [ex_frame ''Old'' '''' 50 30 []] ex_msg ex_records [ex_rule]))) 0)
      (created_at [ex_frame ''Old'' '''' 50 30 []]
        (ls_page (snd (sync_pass (OffPage ex_template) [ex_frame ''Old'' '''' 50 30 []] ex_msg ex_records [ex_rule]))) 1) \<and>
   \<not> rect_overlap (attrs_of ([ex_frame ''Old'' '''' 50 30 []] ! 0))
      (created_at [ex_frame ''Old'' '''' 50 30 []]
        (ls_page (snd (sync_pass (OffPage ex_template) [ex_frame ''Old'' '''' 50 30 []] ex_msg ex_records [ex_rule]))) 1)"
proof -
  let ?pg = "[ex_frame ''Old'' '''' 50 30 []]"
  let ?R = "sync_pass (OffPage ex_template) ?pg ex_msg ex_records [ex_rule]"
  have p: "?R = (fst ?R, snd ?R)" by simp
  have w: "0 \<le> node_width (attrs_of ex_template)" "0 \<le> node_height (attrs_of ex_template)"
    "node_width (attrs_of ex_template) = 100" "node_height (attrs_of ex_template) = 50"
    by (simp_all add: ex_defs)
  have l: "length (ls_page (snd ?R)) = 3"
    by (simp add: ex_defs sync_eval pattern_eval str_eval)
  have y: "getNextAvailableY ?pg = 120"
    by (simp add: getNextAvailableY_def ex_frame_def CARD_GAP_def)
  have dr: "deref ?pg (OffPage ex_template) = Some ex_template" by simp
  note t = new_element_placement [OF p dr w(1,2)]
  have x1: "node_x (created_at ?pg (ls_page (snd ?R)) 1) = 120"
    and y1: "node_y (created_at ?pg (ls_page (snd ?R)) 1) = 120"
    using t l w(3,4) y by (simp_all add: CARDS_PER_ROW_def CARD_GAP_def)
  have o1: "\<not> rect_overlap (created_at ?pg (ls_page (snd ?R)) 0) (created_at ?pg (ls_page (snd ?R)) 1)"
    using t l by simp
  have o2: "\<not> rect_overlap (attrs_of (?pg ! 0)) (created_at ?pg (ls_page (snd ?R)) 1)"
    using t l by simp
  show ?thesis using dr w(1,2) l y x1 y1 o1 o2 by simp
qed

section \<open>Assignments and their algebra\<close>

lemma upd_node_comp: "upd_node f p (upd_node g p n) = upd_node (f \<circ> g) p n"
proof (induction p arbitrary: n)
  case Nil
  show ?case by (cases n) simp
next
  case (Cons i p)
  show ?case by (cases n) (simp add: Cons.IH)
qed

lemma upd_at_comp: "upd_at f r (upd_at g r pg) = upd_at (f \<circ> g) r pg"
  by (cases r) (simp_all add: upd_at_def upd_node_comp)

lemma attrs_of_upd_node_Cons [simp]: "attrs_of (upd_node g (j # q) n) = attrs_of n"
  by (cases n) simp

lemma upd_node_swap:
  "p \<noteq> q \<Longrightarrow> upd_node f p (upd_node g q n) = upd_node g q (upd_node f p n)"
proof (induction p arbitrary: q n)
  case Nil
  then obtain j q' where q: "q = j # q'" by (cases q) auto
  show ?case by (cases n) (simp add: q)
next
  case (Cons i p)
  show ?case
  proof (cases q)
    case Nil
    show ?thesis by (cases n) (simp add: Nil)
  next
    case (Cons j q')
    obtain a cs where n: "n = Node a cs" by (cases n)
    show ?thesis
    proof (cases "i = j")
      case True
      with Cons Cons.prems have "p \<noteq> q'" using \<open>i # p \<noteq> q\<close> by simp
      from Cons.IH [OF this] show ?thesis by (simp add: n Cons True)
    next
      case False
      then show ?thesis by (simp add: n Cons list_update_swap)
    qed
  qed
qed

lemma upd_at_swap:
  "r \<noteq> r' \<Longrightarrow> upd_at f r (upd_at g r' pg) = upd_at g r' (upd_at f r pg)"
proof (cases r)
  case Nil
  then show ?thesis by (simp add: upd_at_def)
next
  case (Cons i p)
  assume ne: "r \<noteq> r'"
  show ?thesis
  proof (cases r')
    case Nil
    then show ?thesis by (simp add: upd_at_def)
  next
    case c2: (Cons j q)
    show ?thesis
    proof (cases "i = j")
      case True
      with ne Cons c2 have "p \<noteq> q" by simp
      from upd_node_swap [OF this] show ?thesis by (simp add: upd_at_def Cons c2 True)
    next
      case False
      then show ?thesis by (simp add: upd_at_def Cons c2 list_update_swap)
    qed
  qed
qed

lemma upd_at_cong_fun: "(\<And>a. f a = g a) \<Longrightarrow> upd_at f r pg = upd_at g r pg"
proof -
  assume "\<And>a. f a = g a"
  then have "f = g" by (intro ext)
  then show ?thesis by simp
qed

lemma parseAndApplyListStyle_twice:
  "parseAndApplyListStyle (parseAndApplyListStyle a s') s = parseAndApplyListStyle a s"
  by (simp add: parseAndApplyListStyle_def Let_def)

lemma parseAndApplyListStyle_visible:
  "parseAndApplyListStyle (a\<lparr>visible := b\<rparr>) s = (parseAndApplyListStyle a s)\<lparr>visible := b\<rparr>"
  by (simp add: parseAndApplyListStyle_def Let_def)

lemma apply_write_overwrite:
  "same_loc w u \<Longrightarrow> apply_write w (apply_write u pg) = apply_write w pg"
  by (cases w; cases u)
     (auto simp: upd_at_comp parseAndApplyListStyle_twice intro!: upd_at_cong_fun)

lemma apply_write_swap:
  "\<not> same_loc w u \<Longrightarrow> apply_write w (apply_write u pg) = apply_write u (apply_write w pg)"
proof (cases w; cases u)
  fix r b r' b' assume "w = SetVisible r b" "u = SetVisible r' b'" "\<not> same_loc w u"
  then show ?thesis by (simp add: upd_at_swap)
next
  fix r s r' s' assume "w = SetText r s" "u = SetText r' s'" "\<not> same_loc w u"
  then show ?thesis by (simp add: upd_at_swap)
next
  fix r b r' s' assume wu: "w = SetVisible r b" "u = SetText r' s'"
  show ?thesis
  proof (cases "r = r'")
    case True
    show ?thesis
      by (auto simp: wu True upd_at_comp parseAndApplyListStyle_visible intro!: upd_at_cong_fun)
  next
    case False
    then show ?thesis by (simp add: wu upd_at_swap)
  qed
next
  fix r s r' b' assume wu: "w = SetText r s" "u = SetVisible r' b'"
  show ?thesis
  proof (cases "r = r'")
    case True
    show ?thesis
      by (auto simp: wu True upd_at_comp parseAndApplyListStyle_visible intro!: upd_at_cong_fun)
  next
    case False
    then show ?thesis by (simp add: wu upd_at_swap)
  qed
qed

lemma apply_writes_Nil [simp]: "apply_writes [] pg = pg"
  by (simp add: apply_writes_def)

lemma apply_writes_Cons [simp]: "apply_writes (w # ws) pg = apply_writes ws (apply_write w pg)"
  by (simp add: apply_writes_def)

lemma apply_writes_append [simp]:
  "apply_writes (ws @ ws') pg = apply_writes ws' (apply_writes ws pg)"
  by (simp add: apply_writes_def)

lemma apply_writes_snoc: "apply_writes (ws @ [w]) pg = apply_write w (apply_writes ws pg)"
  by simp

text \<open>A write that a later run of writes repeats at its end can be dropped.\<close>

lemma apply_writes_absorb:
  "apply_write w (apply_writes ws (apply_write w pg)) = apply_write w (apply_writes ws pg)"
proof (induction ws rule: rev_induct)
  case Nil
  have "same_loc w w" by (cases w) simp_all
  then show ?case by (simp add: apply_write_overwrite)
next
  case (snoc u ws)
  show ?case
  proof (cases "same_loc w u")
    case True
    then show ?thesis using snoc by (simp add: apply_write_overwrite)
  next
    case False
    then show ?thesis using snoc by (simp add: apply_write_swap)
  qed
qed

lemma apply_writes_absorb_list:
  "apply_writes (ws @ [w]) (apply_writes (ws @ [w]) pg) = apply_writes (ws @ [w]) pg
   \<longleftrightarrow> apply_write w (apply_writes ws (apply_writes ws pg)) = apply_write w (apply_writes ws pg)"
  by (simp add: apply_writes_absorb)

text \<open>Running a list of writes a second time changes nothing.\<close>

lemma apply_writes_idem: "apply_writes ws (apply_writes ws pg) = apply_writes ws pg"
proof (induction ws arbitrary: pg rule: rev_induct)
  case Nil
  show ?case by simp
next
  case (snoc w ws)
  have "apply_writes (ws @ [w]) (apply_writes (ws @ [w]) pg)
      = apply_write w (apply_writes ws (apply_write w (apply_writes ws pg)))" by simp
  also have "\<dots> = apply_write w (apply_writes ws (apply_writes ws pg))"
    by (rule apply_writes_absorb)
  also have "\<dots> = apply_write w (apply_writes ws pg)" by (simp add: snoc)
  finally show ?case by simp
qed

lemma skeleton_apply_write: "map skeleton (apply_write w pg) = map skeleton pg"
  by (cases w) (simp_all add: skeleton_upd_at content_only_visible content_only_text)

lemma skeleton_apply_writes: "map skeleton (apply_writes ws pg) = map skeleton pg"
  by (induction ws arbitrary: pg) (simp_all add: skeleton_apply_write)

section \<open>The field applier as a list of assignments\<close>

lemma is_text_at_skeleton:
  assumes "map skeleton pg = map skeleton pg'"
  shows "is_text_at pg t = is_text_at pg' t"
proof (cases "get_at pg t")
  case None
  with get_at_skeleton_cong(1) [OF assms] have "get_at pg' t = None" by simp
  with None show ?thesis by (simp add: is_text_at_def)
next
  case (Some n)
  with get_at_skeleton_cong(2) [OF assms] obtain n' where n': "get_at pg' t = Some n'"
    and s: "skeleton n = skeleton n'" by blast
  show ?thesis using Some n' skeleton_eq_attrs(2) [OF s] by (simp add: is_text_at_def)
qed

lemma apply_mapping_writes:
  "snd (apply_mapping pg inst rec m) = apply_writes (mapping_writes pg inst rec m) pg"
proof (cases "findChildByName pg inst (layerName m)")
  case (Inl e)
  then show ?thesis by (simp add: apply_mapping_def mapping_writes_def)
next
  case (Inr ot)
  show ?thesis
  proof (cases ot)
    case None
    with Inr show ?thesis by (simp add: apply_mapping_def mapping_writes_def)
  next
    case (Some t)
    have tx: "\<And>b. (case get_at (upd_at (\<lambda>a. a\<lparr>visible := b\<rparr>) t pg) t of None \<Rightarrow> False
                    | Some n \<Rightarrow> node_type (attrs_of n) = TEXT) = is_text_at pg t"
      using is_text_at_skeleton [OF skeleton_upd_at [OF content_only_visible]]
      by (simp add: is_text_at_def)
    show ?thesis
    proof (cases "get_prop rec (dataField m)")
      case None
      with Inr Some show ?thesis by (simp add: apply_mapping_def mapping_writes_def)
    next
      case (Some v)
      with Inr \<open>ot = Some t\<close> show ?thesis
        by (cases v) (simp_all add: apply_mapping_def mapping_writes_def Let_def tx)
    qed
  qed
qed

lemma mapping_writes_skeleton:
  assumes "map skeleton pg = map skeleton pg'"
  shows "mapping_writes pg inst rec m = mapping_writes pg' inst rec m"
proof -
  have f: "findChildByName pg inst (layerName m) = findChildByName pg' inst (layerName m)"
    by (rule findChildByName_skeleton [OF assms])
  have t: "\<And>t. is_text_at pg t = is_text_at pg' t" by (rule is_text_at_skeleton [OF assms])
  show ?thesis unfolding mapping_writes_def f t ..
qed

lemma fill_writes_skeleton:
  assumes "map skeleton pg = map skeleton pg'"
  shows "fill_writes pg inst rec ms = fill_writes pg' inst rec ms"
proof -
  have "mapping_writes pg inst rec = mapping_writes pg' inst rec"
    by (intro ext mapping_writes_skeleton [OF assms])
  then show ?thesis by (simp add: fill_writes_def)
qed

lemma mapping_writes_throw: "\<not> ref_has_children pg inst \<Longrightarrow> mapping_writes pg inst rec m = []"
  by (auto simp: mapping_writes_def findChildByName_def ref_has_children_def split: option.splits)

lemma fill_writes_throw: "\<not> ref_has_children pg inst \<Longrightarrow> fill_writes pg inst rec ms = []"
  by (simp add: fill_writes_def mapping_writes_throw)

lemma fillInstanceData_writes:
  "snd (fillInstanceData pg inst rec ms) = apply_writes (fill_writes pg inst rec ms) pg"
proof (cases "ref_has_children pg inst")
  case False
  then show ?thesis
    by (cases ms) (simp_all add: fill_writes_throw apply_mapping_throw)
next
  case True
  then show ?thesis
  proof (induction ms arbitrary: pg)
    case Nil
    show ?case by (simp add: fill_writes_def)
  next
    case (Cons m ms)
    obtain e pg' where a: "apply_mapping pg inst rec m = (e, pg')" by (cases "apply_mapping pg inst rec m")
    have e: "e = None" using apply_mapping_no_throw [OF Cons.prems, of rec m] a by simp
    have s: "map skeleton pg' = map skeleton pg" using apply_mapping_skeleton [of pg inst rec m] a by simp
    have h: "ref_has_children pg' inst" using Cons.prems ref_has_children_skeleton [OF s] by simp
    have w: "pg' = apply_writes (mapping_writes pg inst rec m) pg"
      using apply_mapping_writes [of pg inst rec m] a by simp
    have "snd (fillInstanceData pg inst rec (m # ms)) = snd (fillInstanceData pg' inst rec ms)"
      by (simp add: a e)
    also have "\<dots> = apply_writes (fill_writes pg' inst rec ms) pg'" by (rule Cons.IH [OF h])
    also have "\<dots> = apply_writes (fill_writes pg inst rec ms) pg'"
      by (simp add: fill_writes_skeleton [OF s])
    finally show ?case by (simp add: w fill_writes_def)
  qed
qed

lemma updateInstance_writes:
  "snd (updateInstance pg nd rec ms) = apply_writes (fill_writes pg nd rec ms) pg"
  by (simp add: updateInstance_def fillInstanceData_writes fill_writes_throw)

lemma nodes_writes_skeleton:
  assumes "map skeleton pg = map skeleton pg'"
  shows "nodes_writes ms pg nodes rec = nodes_writes ms pg' nodes rec"
proof -
  have "(\<lambda>nd. fill_writes pg nd rec ms) = (\<lambda>nd. fill_writes pg' nd rec ms)"
    by (intro ext fill_writes_skeleton [OF assms])
  then show ?thesis by (simp add: nodes_writes_def)
qed

lemma replay_writes_skeleton:
  assumes "map skeleton pg = map skeleton pg'"
  shows "replay_writes ms pg ops = replay_writes ms pg' ops"
proof -
  have "nodes_writes ms pg = nodes_writes ms pg'"
    by (intro ext nodes_writes_skeleton [OF assms])
  then show ?thesis by (simp add: replay_writes_def)
qed

lemma update_nodes_writes:
  "foldl (\<lambda>p nd. snd (updateInstance p nd rec ms)) pg nodes = apply_writes (nodes_writes ms pg nodes rec) pg"
proof (induction nodes arbitrary: pg)
  case Nil
  show ?case by (simp add: nodes_writes_def)
next
  case (Cons nd nodes)
  let ?pg' = "apply_writes (fill_writes pg nd rec ms) pg"
  have s: "map skeleton ?pg' = map skeleton pg" by (rule skeleton_apply_writes)
  have "foldl (\<lambda>p nd. snd (updateInstance p nd rec ms)) pg (nd # nodes)
      = foldl (\<lambda>p nd. snd (updateInstance p nd rec ms)) ?pg' nodes"
    by (simp add: updateInstance_writes)
  also have "\<dots> = apply_writes (nodes_writes ms ?pg' nodes rec) ?pg'" by (rule Cons.IH)
  also have "\<dots> = apply_writes (nodes_writes ms pg nodes rec) ?pg'"
    by (simp add: nodes_writes_skeleton [OF s])
  finally show ?case by (simp add: nodes_writes_def)
qed

lemma replay_as_writes: "replay ms pg ops = apply_writes (replay_writes ms pg ops) pg"
proof (induction ops arbitrary: pg)
  case Nil
  show ?case by (simp add: replay_writes_def)
next
  case (Cons op ops)
  obtain nodes rec where op: "op = (nodes, rec)" by (cases op)
  let ?pg' = "apply_writes (nodes_writes ms pg nodes rec) pg"
  have s: "map skeleton ?pg' = map skeleton pg" by (rule skeleton_apply_writes)
  have "replay ms pg (op # ops) = replay ms ?pg' ops" by (simp add: op update_nodes_writes)
  also have "\<dots> = apply_writes (replay_writes ms ?pg' ops) ?pg'" by (rule Cons.IH)
  also have "\<dots> = apply_writes (replay_writes ms pg ops) ?pg'"
    by (simp add: replay_writes_skeleton [OF s])
  finally show ?case by (simp add: op replay_writes_def)
qed

text \<open>Replaying the same updates on the page they produced changes nothing.\<close>

lemma replay_idem: "replay ms (replay ms pg ops) ops = replay ms pg ops"
proof -
  let ?ws = "replay_writes ms pg ops"
  have s: "map skeleton (apply_writes ?ws pg) = map skeleton pg" by (rule skeleton_apply_writes)
  have "replay ms (replay ms pg ops) ops = replay ms (apply_writes ?ws pg) ops"
    by (simp add: replay_as_writes [of ms pg])
  also have "\<dots> = apply_writes (replay_writes ms (apply_writes ?ws pg) ops) (apply_writes ?ws pg)"
    by (rule replay_as_writes)
  also have "\<dots> = apply_writes ?ws (apply_writes ?ws pg)"
    by (simp add: replay_writes_skeleton [OF s])
  also have "\<dots> = apply_writes ?ws pg" by (rule apply_writes_idem)
  finally show ?thesis by (simp add: replay_as_writes [of ms pg])
qed

section \<open>A pass as a replay on the page with its new elements\<close>

lemma skeleton_length: "map skeleton a = map skeleton b \<Longrightarrow> length a = length b"
  by (metis length_map)

lemma within_get_at: "get_at pg r = Some n \<Longrightarrow> within pg r"
  by (cases r) (auto simp: get_at_def within_def split: if_splits)

lemma within_append: "within pg r \<Longrightarrow> within (pg @ xs) r"
  by (cases r) (auto simp: within_def)

lemma within_length: "length pg' = length pg \<Longrightarrow> within pg' r = within pg r"
  by (cases r) (auto simp: within_def)

lemma get_at_append_page: "within pg r \<Longrightarrow> get_at (pg @ xs) r = get_at pg r"
  by (cases r) (auto simp: get_at_def within_def nth_append)

lemma upd_at_append_page: "within pg r \<Longrightarrow> upd_at f r (pg @ xs) = upd_at f r pg @ xs"
  by (cases r) (auto simp: upd_at_def within_def nth_append list_update_append1)

lemma findChildByName_append:
  "within pg inst \<Longrightarrow> findChildByName (pg @ xs) inst nm = findChildByName pg inst nm"
  by (simp add: findChildByName_def get_at_append_page)

lemma is_text_at_append: "within pg t \<Longrightarrow> is_text_at (pg @ xs) t = is_text_at pg t"
  by (simp add: is_text_at_def get_at_append_page)

lemma findChildByName_within:
  "findChildByName pg inst nm = Inr (Some t) \<Longrightarrow> within pg t"
  using findChildByName_valid within_get_at by blast

lemma mapping_writes_within:
  "w \<in> set (mapping_writes pg inst rec m) \<Longrightarrow> within pg (ref_of w)"
proof (cases "findChildByName pg inst (layerName m)")
  case (Inl e)
  then show "w \<in> set (mapping_writes pg inst rec m) \<Longrightarrow> ?thesis" by (simp add: mapping_writes_def)
next
  case (Inr ot)
  assume w: "w \<in> set (mapping_writes pg inst rec m)"
  show ?thesis
  proof (cases ot)
    case None
    with Inr w show ?thesis by (simp add: mapping_writes_def)
  next
    case (Some t)
    with Inr have wt: "within pg t" using findChildByName_within by simp
    show ?thesis
    proof (cases "get_prop rec (dataField m)")
      case None
      with Inr Some w show ?thesis by (simp add: mapping_writes_def)
    next
      case v: (Some v)
      from w Inr Some v wt show ?thesis
        by (cases v) (auto simp: mapping_writes_def split: if_splits)
    qed
  qed
qed

lemma mapping_writes_append:
  assumes "within pg inst"
  shows "mapping_writes (pg @ xs) inst rec m = mapping_writes pg inst rec m"
proof -
  have f: "findChildByName (pg @ xs) inst (layerName m) = findChildByName pg inst (layerName m)"
    by (rule findChildByName_append [OF assms])
  show ?thesis
  proof (cases "findChildByName pg inst (layerName m)")
    case (Inl e)
    then show ?thesis by (simp add: mapping_writes_def f)
  next
    case (Inr ot)
    show ?thesis
    proof (cases ot)
      case None
      with Inr show ?thesis by (simp add: mapping_writes_def f)
    next
      case (Some t)
      with Inr have "within pg t" using findChildByName_within by simp
      then have "is_text_at (pg @ xs) t = is_text_at pg t" by (rule is_text_at_append)
      with Inr Some show ?thesis
        by (simp add: mapping_writes_def f split: option.splits jsval.splits)
    qed
  qed
qed

lemma fill_writes_append:
  assumes "within pg inst"
  shows "fill_writes (pg @ xs) inst rec ms = fill_writes pg inst rec ms"
proof -
  have "mapping_writes (pg @ xs) inst rec = mapping_writes pg inst rec"
    by (intro ext mapping_writes_append [OF assms])
  then show ?thesis by (simp add: fill_writes_def)
qed

lemma fill_writes_within: "w \<in> set (fill_writes pg inst rec ms) \<Longrightarrow> within pg (ref_of w)"
  by (auto simp: fill_writes_def dest: mapping_writes_within)

lemma length_apply_write [simp]: "length (apply_write w pg) = length pg"
  by (cases w) simp_all

lemma length_apply_writes [simp]: "length (apply_writes ws pg) = length pg"
  by (induction ws arbitrary: pg) simp_all

lemma apply_write_append_page:
  "within pg (ref_of w) \<Longrightarrow> apply_write w (pg @ xs) = apply_write w pg @ xs"
  by (cases w) (simp_all add: upd_at_append_page)

lemma apply_writes_append_page:
  "\<forall>w\<in>set ws. within pg (ref_of w) \<Longrightarrow> apply_writes ws (pg @ xs) = apply_writes ws pg @ xs"
proof (induction ws arbitrary: pg)
  case Nil
  show ?case by simp
next
  case (Cons w ws)
  have "\<forall>u\<in>set ws. within (apply_write w pg) (ref_of u)"
    using Cons.prems by (simp add: within_length [of "apply_write w pg" pg])
  from Cons.IH [OF this] show ?case using Cons.prems by (simp add: apply_write_append_page)
qed

lemma updateInstance_append:
  assumes "within pg nd"
  shows "snd (updateInstance (pg @ xs) nd rec ms) = snd (updateInstance pg nd rec ms) @ xs"
proof -
  have "\<forall>w\<in>set (fill_writes pg nd rec ms). within pg (ref_of w)"
    using fill_writes_within by blast
  then show ?thesis
    by (simp add: updateInstance_writes fill_writes_append [OF assms] apply_writes_append_page)
qed

lemma length_updateInstance [simp]: "length (snd (updateInstance pg nd rec ms)) = length pg"
  by (simp add: updateInstance_writes)

lemma update_nodes_append:
  "\<forall>nd\<in>set nodes. within pg nd \<Longrightarrow>
     foldl (\<lambda>p nd. snd (updateInstance p nd rec ms)) (pg @ xs) nodes
     = foldl (\<lambda>p nd. snd (updateInstance p nd rec ms)) pg nodes @ xs"
proof (induction nodes arbitrary: pg)
  case Nil
  show ?case by simp
next
  case (Cons nd nodes)
  have "\<forall>n\<in>set nodes. within (snd (updateInstance pg nd rec ms)) n"
    using Cons.prems by (simp add: within_length [of "snd (updateInstance pg nd rec ms)" pg])
  from Cons.IH [OF this] show ?case using Cons.prems by (simp add: updateInstance_append)
qed

lemma fill_eq_update:
  "fst (fillInstanceData pg r rec ms) = None \<Longrightarrow>
     snd (updateInstance pg r rec ms) = snd (fillInstanceData pg r rec ms)"
proof (cases "ref_has_children pg r")
  case True
  then show ?thesis by (simp add: updateInstance_def)
next
  case False
  assume "fst (fillInstanceData pg r rec ms) = None"
  with False have "ms = []" using fillInstanceData_throw [of pg r ms rec] by (cases ms) auto
  then show ?thesis by (simp add: updateInstance_def)
qed

lemma sync_loop_replay:
  assumes "sync_loop env i st recs = (None, st')"
    and "\<forall>k. \<forall>r\<in>set (lookup (existingMap st) k). within (ls_page st) r"
    and "deref (ls_page st) (env_templateNode env) = Some t"
  shows "\<exists>cs. map skeleton cs =
            map skeleton (instances_from t env (newIndex st)
              (miss_keys (existingMap st) (keys_from (env_idField env) i recs))) \<and>
     ls_page st' =
     replay (env_mappings env) (ls_page st @ cs)
       (zip (targets (existingMap st) (length (ls_page st)) (keys_from (env_idField env) i recs)) recs)"
  using assms
proof (induction recs arbitrary: i st t)
  case Nil
  then show ?case by (simp add: miss_keys_def)
next
  case (Cons rec recs)
  let ?k = "recordId_of rec (env_idField env) i"
  let ?m = "existingMap st"
  let ?ms = "env_mappings env"
  let ?P = "ls_page st"
  let ?ks = "keys_from (env_idField env) (Suc i) recs"
  obtain x st1 where p: "process_record env i st rec = (x, st1)"
    by (cases "process_record env i st rec")
  have x: "x = None" using Cons.prems(1) p by (cases x) simp_all
  from Cons.prems(1) have l: "sync_loop env (Suc i) st1 recs = (None, st')" by (simp add: p x)
  from process_record_effect [OF p] obtain xs1 where
    xs1: "map skeleton (ls_page st1) = map skeleton ?P @ xs1" by blast
  from deref_prefix_skeleton [OF xs1 Cons.prems(3)] obtain t1 where
    t1: "deref (ls_page st1) (env_templateNode env) = Some t1" "skeleton t1 = skeleton t" by blast
  show ?case
  proof (cases "lookup ?m ?k = []")
    case False
    then have u: "update_all rec ?ms st (lookup ?m ?k) = (None, st1)"
      using p x by (simp add: process_record_lookup)
    note ue = update_all_effect [OF u]
    have pg1: "ls_page st1 = foldl (\<lambda>p nd. snd (updateInstance p nd rec ?ms)) ?P (lookup ?m ?k)"
      using update_all_page [of rec ?ms st "lookup ?m ?k"] u by simp
    have len: "length (ls_page st1) = length ?P"
      using ue skeleton_length by blast
    have inv: "\<forall>k. \<forall>r\<in>set (lookup (existingMap st1) k). within (ls_page st1) r"
      using Cons.prems(2) ue by (simp add: within_length [OF len])
    have mk: "miss_keys ?m (keys_from (env_idField env) i (rec # recs)) = miss_keys ?m ?ks"
      using False by (simp add: miss_keys_def)
    have w: "\<forall>nd\<in>set (lookup ?m ?k). within ?P nd" using Cons.prems(2) by blast
    have st1: "existingMap st1 = ?m" "newIndex st1 = newIndex st" using ue by simp_all
    from Cons.IH [OF l inv t1(1), unfolded skeleton_instances_from [OF t1(2)] st1 len]
    obtain cs where cs: "map skeleton cs = map skeleton (instances_from t env (newIndex st) (miss_keys ?m ?ks))"
      and r: "ls_page st' = replay ?ms (ls_page st1 @ cs) (zip (targets ?m (length ?P) ?ks) recs)"
      by blast
    have "ls_page st' = replay ?ms (?P @ cs)
        (zip (targets ?m (length ?P) (keys_from (env_idField env) i (rec # recs))) (rec # recs))"
      using False r by (simp add: pg1 update_nodes_append [OF w])
    with cs show ?thesis unfolding mk by blast
  next
    case True
    then have ins: "insert_new env st ?k rec = (None, st1)"
      using p x by (simp add: process_record_lookup)
    note inp = insert_new_page [OF Cons.prems(3)]
    let ?new = "new_instance t env (newIndex st) ?k"
    obtain y pg' where f: "fillInstanceData (?P @ [?new]) [length ?P] rec ?ms = (y, pg')"
      by (cases "fillInstanceData (?P @ [?new]) [length ?P] rec ?ms")
    have y: "y = None" using ins f by (cases y) (simp_all add: inp)
    have st1: "st1 = st\<lparr>ls_page := pg', createdCount := createdCount st + 1,
        newIndex := newIndex st + 1, affectedNodes := affectedNodes st @ [[length ?P]]\<rparr>"
      using ins f y by (simp add: inp)
    have len: "length pg' = Suc (length ?P)"
      using fillInstanceData_writes [of "?P @ [?new]" "[length ?P]" rec ?ms] f by simp
    have up: "snd (updateInstance (?P @ [?new]) [length ?P] rec ?ms) = pg'"
      using fill_eq_update [of "?P @ [?new]" "[length ?P]" rec ?ms] f y by simp
    have inv: "\<forall>k. \<forall>r\<in>set (lookup (existingMap st1) k). within (ls_page st1) r"
    proof (intro allI ballI)
      fix k r assume "r \<in> set (lookup (existingMap st1) k)"
      then have "within ?P r" using Cons.prems(2) by (simp add: st1)
      then show "within (ls_page st1) r" using len by (cases r) (auto simp: within_def st1)
    qed
    have mk: "miss_keys ?m (keys_from (env_idField env) i (rec # recs)) = ?k # miss_keys ?m ?ks"
      using True by (simp add: miss_keys_def)
    have wn: "within (?P @ [?new]) [length ?P]" by (simp add: within_def)
    have s1: "existingMap st1 = ?m" "newIndex st1 = Suc (newIndex st)" "ls_page st1 = pg'"
      by (simp_all add: st1)
    from Cons.IH [OF l inv t1(1), unfolded skeleton_instances_from [OF t1(2)] s1 len]
    obtain cs where cs: "map skeleton cs
          = map skeleton (instances_from t env (Suc (newIndex st)) (miss_keys ?m ?ks))"
      and r: "ls_page st' = replay ?ms (pg' @ cs) (zip (targets ?m (Suc (length ?P)) ?ks) recs)"
      by blast
    have "snd (updateInstance (?P @ ?new # cs) [length ?P] rec ?ms) = pg' @ cs"
      using updateInstance_append [OF wn, of cs rec ?ms] by (simp add: up)
    then have "ls_page st' = replay ?ms (?P @ ?new # cs)
        (zip (targets ?m (length ?P) (keys_from (env_idField env) i (rec # recs))) (rec # recs))"
      using True r by simp
    moreover have "map skeleton (?new # cs)
        = map skeleton (instances_from t env (newIndex st) (?k # miss_keys ?m ?ks))"
      using cs by simp
    ultimately show ?thesis unfolding mk by blast
  qed
qed
section \<open>The index after a pass\<close>

lemma entries_children_append:
  "entries_children r i (xs @ ys) = entries_children r i xs @ entries_children r (i + length xs) ys"
  by (induction xs arbitrary: i) simp_all

lemma entries_tags:
  "map fst (entries r n) = map fst (entries r' n)"
  "map fst (entries_children r i cs) = map fst (entries_children r' i' cs)"
proof (induction r n and r i cs arbitrary: r' and r' i' rule: entries_entries_children.induct)
  case (1 r a cs)
  show ?case
  proof (cases "has_children (Node a cs)")
    case True
    from "1.IH" [OF True, of r' 0] True show ?thesis by simp
  next
    case False
    then show ?thesis by simp
  qed
next
  case (2 r i)
  show ?case by simp
next
  case (3 r i c cs)
  from "3.IH"(1) [of "r' @ [i']"] "3.IH"(2) [of r' "Suc i'"] show ?case by simp
qed

lemma untagged_any_prefix:
  assumes "\<forall>e\<in>set (entries_children [] 0 cs). fst e = []"
  shows "\<forall>e\<in>set (entries_children r i cs). fst e = []"
proof -
  have "set (map fst (entries_children r i cs)) = set (map fst (entries_children [] 0 cs))"
    using entries_tags(2) [of r i cs "[]" 0] by simp
  then show ?thesis using assms by (metis (no_types, lifting) image_iff list.set_map)
qed

lemma children_new_instance: "children (new_instance t env j k) = children t"
  by (simp add: new_instance_def createInstance_def clone_def Let_def)

lemma entries_new_instance:
  "entries r (new_instance t env j k) =
     (k, r) # (if has_children t then entries_children r 0 (children t) else [])"
proof -
  obtain a cs where n: "new_instance t env j k = Node a cs" by (cases "new_instance t env j k")
  have a: "notionId a = k" using new_instance_geometry(5) [of t env j k] by (simp add: n)
  have c: "cs = children t" using children_new_instance [of t env j k] by (simp add: n)
  have h: "has_children (Node a cs) = has_children t"
    using has_children_new_instance [of t env j k] by (simp add: n)
  show ?thesis unfolding n by (simp add: a c h del: has_children_def) (simp add: c [symmetric] h)
qed

lemma filter_untagged:
  "\<forall>e\<in>set es. fst e = [] \<Longrightarrow> k \<noteq> [] \<Longrightarrow> filter (\<lambda>e. fst e = k) es = []"
  by (induction es) auto

lemma tagged_instances:
  assumes "\<forall>e\<in>set (entries_children [] 0 (children t)). fst e = []"
    and "k \<noteq> []"
  shows "map snd (filter (\<lambda>e. fst e = k) (entries_children [] L (instances_from t env j ks)))
       = new_refs L ks k"
proof (induction ks arbitrary: L j)
  case Nil
  show ?case by simp
next
  case (Cons k' ks)
  have u: "filter (\<lambda>e. fst e = k) (entries_children [L] 0 (children t)) = []"
    using untagged_any_prefix [OF assms(1), of "[L]" 0] assms(2) by (rule filter_untagged)
  show ?case using Cons.IH [of "Suc L" "Suc j"] by (simp add: entries_new_instance u)
qed

lemma tagged_with_skeleton:
  "map skeleton pg = map skeleton pg' \<Longrightarrow> tagged_with pg k = tagged_with pg' k"
  by (metis entries_skeleton(2) tagged_with_def)

lemma tagged_with_instances:
  assumes "\<forall>e\<in>set (entries_children [] 0 (children t)). fst e = []"
    and "k \<noteq> []"
  shows "tagged_with (pg @ instances_from t env j ks) k = tagged_with pg k @ new_refs (length pg) ks k"
  using tagged_instances [OF assms, of "length pg" env j ks]
  by (simp add: tagged_with_def entries_children_append)

lemma new_refs_append:
  "new_refs L (xs @ ys) k = new_refs L xs k @ new_refs (L + length xs) ys k"
  by (induction xs arbitrary: L) simp_all

lemma new_refs_notin: "k \<notin> set ks \<Longrightarrow> new_refs L ks k = []"
  by (induction ks arbitrary: L) auto

lemma new_refs_in: "k \<in> set ks \<Longrightarrow> new_refs L ks k \<noteq> []"
  by (induction ks arbitrary: L) auto

lemma new_refs_unique:
  "distinct (xs @ k # ys) \<Longrightarrow> new_refs L (xs @ k # ys) k = [[L + length xs]]"
  by (simp add: new_refs_append new_refs_notin)

lemma targets_lookup:
  assumes "distinct (pre @ miss_keys m0 ks)" and "\<forall>k\<in>set pre. lookup m0 k = []"
    and "\<forall>k\<in>set ks. lookup m1 k = lookup m0 k @ new_refs L (pre @ miss_keys m0 ks) k"
  shows "targets m0 (L + length pre) ks = map (lookup m1) ks"
  using assms
proof (induction ks arbitrary: pre)
  case Nil
  show ?case by simp
next
  case (Cons k ks)
  show ?case
  proof (cases "lookup m0 k = []")
    case False
    then have mk: "miss_keys m0 (k # ks) = miss_keys m0 ks" by (simp add: miss_keys_def)
    have "k \<notin> set (pre @ miss_keys m0 ks)"
      using False Cons.prems(2) by (auto simp: miss_keys_def)
    then have "lookup m1 k = lookup m0 k"
      using Cons.prems(3) by (simp add: mk new_refs_notin)
    moreover have "targets m0 (L + length pre) ks = map (lookup m1) ks"
      using Cons.IH [of pre] Cons.prems by (simp add: mk)
    ultimately show ?thesis using False by simp
  next
    case True
    then have mk: "miss_keys m0 (k # ks) = k # miss_keys m0 ks" by (simp add: miss_keys_def)
    have d: "distinct (pre @ k # miss_keys m0 ks)" using Cons.prems(1) by (simp add: mk)
    have "lookup m1 k = [[L + length pre]]"
      using Cons.prems(3) True new_refs_unique [OF d, of L] by (simp add: mk)
    moreover have "targets m0 (L + length (pre @ [k])) ks = map (lookup m1) ks"
    proof (rule Cons.IH)
      show "distinct ((pre @ [k]) @ miss_keys m0 ks)" using d by simp
      show "\<forall>k'\<in>set (pre @ [k]). lookup m0 k' = []" using Cons.prems(2) True by simp
      show "\<forall>k'\<in>set ks. lookup m1 k' = lookup m0 k' @ new_refs L ((pre @ [k]) @ miss_keys m0 ks) k'"
        using Cons.prems(3) by (simp add: mk)
    qed
    ultimately show ?thesis using True by simp
  qed
qed

lemma sync_loop_all_hit:
  "miss_keys (existingMap st) (keys_from (env_idField env) i recs) = [] \<Longrightarrow>
     fst (sync_loop env i st recs) = None"
proof (induction recs arbitrary: i st)
  case Nil
  show ?case by simp
next
  case (Cons rec recs)
  let ?k = "recordId_of rec (env_idField env) i"
  from Cons.prems have hit: "lookup (existingMap st) ?k \<noteq> []"
    and rest: "miss_keys (existingMap st) (keys_from (env_idField env) (Suc i) recs) = []"
    by (auto simp: miss_keys_def split: if_splits)
  obtain x st1 where u: "update_all rec (env_mappings env) st (lookup (existingMap st) ?k) = (x, st1)"
    by (cases "update_all rec (env_mappings env) st (lookup (existingMap st) ?k)")
  note ue = update_all_effect [OF u]
  have p: "process_record env i st rec = (None, st1)"
    using hit u ue by (simp add: process_record_lookup)
  have "miss_keys (existingMap st1) (keys_from (env_idField env) (Suc i) recs) = []"
    using rest ue by simp
  from Cons.IH [OF this] show ?case by (simp add: p)
qed

lemma targets_all_hit:
  "miss_keys m ks = [] \<Longrightarrow> targets m L ks = map (lookup m) ks"
  by (induction ks) (auto simp: miss_keys_def split: if_splits)

section \<open>The claim about idempotence\<close>

lemma buildExistingMap_within:
  "\<forall>k. \<forall>r\<in>set (lookup (buildExistingMap pg) k). within pg r"
proof (intro allI ballI)
  fix k r assume "r \<in> set (lookup (buildExistingMap pg) k)"
  then have "r \<in> set (tagged_with pg k)"
    by (cases "k = []") (simp_all add: lookup_buildExistingMap)
  from tagged_with_sound [OF this] show "within pg r" using within_get_at by blast
qed

lemma sync_pass_replay:
  assumes "sync_pass templateNode pg msg d ms = (None, st)" and "deref pg templateNode = Some t"
  shows "\<exists>cs. map skeleton cs =
            map skeleton (instances_from t (pass_env templateNode pg msg ms) 0
                            (new_keys pg (keys_from (idField msg) 0 d))) \<and>
     ls_page st =
     replay ms (pg @ cs)
       (zip (targets (buildExistingMap pg) (length pg) (keys_from (idField msg) 0 d)) d)"
proof -
  let ?env = "pass_env templateNode pg msg ms"
  let ?st0 = "\<lparr>ls_page = pg, existingMap = buildExistingMap pg, newIndex = 0,
        updatedCount = 0, createdCount = 0, affectedNodes = []\<rparr>"
  have ne: "\<forall>k\<in>set (keys_from (idField msg) 0 d). k \<noteq> []" using keys_from_ne by blast
  from assms(1) have l: "sync_loop ?env 0 ?st0 d = (None, st)" by (simp add: sync_pass_loop)
  have inv: "\<forall>k. \<forall>r\<in>set (lookup (existingMap ?st0) k). within (ls_page ?st0) r"
    using buildExistingMap_within [of pg] by simp
  have dr: "deref (ls_page ?st0) (env_templateNode ?env) = Some t"
    using assms(2) by (simp add: pass_env_def)
  have e: "env_mappings ?env = ms" "env_idField ?env = idField msg" by (simp_all add: pass_env_def)
  from sync_loop_replay [OF l inv dr] show ?thesis
    by (simp add: e miss_keys_build [OF ne])
qed

text \<open>
  C1, as the claim states it, fails, in two ways. First, a batch may name a new
  identifier twice. Two records with the identifier \<open>a\<close> and the texts \<open>x\<close> and \<open>y\<close>
  are synced into an empty page. The first run creates two elements, with the texts \<open>x\<close>
  and \<open>y\<close>. The second run, with the same inputs, updates both elements for both
  records: the first element now reads \<open>y\<close>, and 4 updates are reported where 1
  identifier times 2 elements is 2. Second, a sublayer of the template may carry an
  identifier tag. One record with the identifier \<open>a\<close> is synced into an empty page from
  a template whose sublayer \<open>Sub\<close> is tagged \<open>a\<close>. The first run creates one element
  and fills its text layer; the text inside the copied sublayer still reads \<open>i0\<close>. The
  second run finds two nodes tagged \<open>a\<close>, the element and its sublayer, updates both,
  and the text inside the sublayer now reads \<open>x\<close>.
\<close>

theorem sync_twice_counterexample:
  "fst (sync_mapped_data ex_host [] ex_msg) = Done 2 0 \<and>
   get_at (snd (sync_mapped_data ex_host [] ex_msg)) [0, 0] = Some (ex_text ''#t'' ''x'') \<and>
   fst (sync_mapped_data ex_host (snd (sync_mapped_data ex_host [] ex_msg)) ex_msg) = Done 0 4 \<and>
   get_at (snd (sync_mapped_data ex_host (snd (sync_mapped_data ex_host [] ex_msg)) ex_msg)) [0, 0]
     = Some (ex_text ''#t'' ''y'') \<and>
   length (remdups (keys_from (idField ex_msg) 0 ex_records))
     * length (tagged_with (snd (sync_mapped_data ex_host [] ex_msg)) ''a'') = 2 \<and>
   new_keys [] (keys_from (idField ex_msg_one) 0 [[''id'' \<mapsto> JStr ''a'', ''t'' \<mapsto> JStr ''x'']]) = [''a''] \<and>
   map fst (entries_children [] 0 (children ex_template_sub)) = ['''', ''a'', ''''] \<and>
   fst (sync_mapped_data ex_host_sub [] ex_msg_one) = Done 1 0 \<and>
   get_at (snd (sync_mapped_data ex_host_sub [] ex_msg_one)) [0, 0] = Some (ex_text ''#t'' ''x'') \<and>
   get_at (snd (sync_mapped_data ex_host_sub [] ex_msg_one)) [0, 1, 0] = Some (ex_text ''#t'' ''i0'') \<and>
   fst (sync_mapped_data ex_host_sub (snd (sync_mapped_data ex_host_sub [] ex_msg_one)) ex_msg_one)
     = Done 0 2 \<and>
   get_at (snd (sync_mapped_data ex_host_sub (snd (sync_mapped_data ex_host_sub [] ex_msg_one))
                  ex_msg_one)) [0, 1, 0]
     = Some (ex_text ''#t'' ''x'')"
proof -
  have r1: "sync_mapped_data ex_host [] ex_msg =
    (Done 2 0,
     [Node \<lparr>node_name = ''Card'', node_type = FRAME, node_x = 0, node_y = 0,
         node_width = 100, node_height = 50, visible = True, characters = [],
         listOptions = NONE, notionId = ''a'', sourceComponentId = ''c1''\<rparr>
        [ex_text ''#t'' ''x''],
      Node \<lparr>node_name = ''Card'', node_type = FRAME, node_x = 120, node_y = 0,
         node_width = 100, node_height = 50, visible = True, characters = [],
         listOptions = NONE, notionId = ''a'', sourceComponentId = ''c1''\<rparr>
        [ex_text ''#t'' ''y'']])"
    by (simp add: ex_defs sync_eval pattern_eval str_eval)
  have k: "keys_from (idField ex_msg) 0 ex_records = [''a'', ''a'']"
    by (simp add: ex_defs recordId_of_def get_prop_def)
  have a: "fst (sync_mapped_data ex_host [] ex_msg) = Done 2 0 \<and>
   get_at (snd (sync_mapped_data ex_host [] ex_msg)) [0, 0] = Some (ex_text ''#t'' ''x'') \<and>
   fst (sync_mapped_data ex_host (snd (sync_mapped_data ex_host [] ex_msg)) ex_msg) = Done 0 4 \<and>
   get_at (snd (sync_mapped_data ex_host (snd (sync_mapped_data ex_host [] ex_msg)) ex_msg)) [0, 0]
     = Some (ex_text ''#t'' ''y'') \<and>
   length (remdups (keys_from (idField ex_msg) 0 ex_records))
     * length (tagged_with (snd (sync_mapped_data ex_host [] ex_msg)) ''a'') = 2"
    unfolding r1 k
    by (simp add: ex_defs sync_eval pattern_eval str_eval tagged_with_def)
  have s1: "sync_mapped_data ex_host_sub [] ex_msg_one =
    (Done 1 0,
     [Node \<lparr>node_name = ''Card'', node_type = FRAME, node_x = 0, node_y = 0,
         node_width = 100, node_height = 50, visible = True, characters = [],
         listOptions = NONE, notionId = ''a'', sourceComponentId = ''c1''\<rparr>
        [ex_text ''#t'' ''x'', ex_frame ''Sub'' ''a'' 0 0 [ex_text ''#t'' ''i0'']]])"
    by (simp add: ex_defs ex_more_defs sync_eval pattern_eval str_eval)
  have b1: "new_keys [] (keys_from (idField ex_msg_one) 0 [[''id'' \<mapsto> JStr ''a'', ''t'' \<mapsto> JStr ''x'']]) = [''a'']"
    by (simp add: new_keys_def tagged_with_def recordId_of_def get_prop_def ex_msg_one_def ex_msg_def)
  have b2: "map fst (entries_children [] 0 (children ex_template_sub)) = ['''', ''a'', '''']"
    by (simp add: ex_template_sub_def ex_frame_def ex_text_def has_children_def)
  have b: "fst (sync_mapped_data ex_host_sub [] ex_msg_one) = Done 1 0 \<and>
   get_at (snd (sync_mapped_data ex_host_sub [] ex_msg_one)) [0, 0] = Some (ex_text ''#t'' ''x'') \<and>
   get_at (snd (sync_mapped_data ex_host_sub [] ex_msg_one)) [0, 1, 0] = Some (ex_text ''#t'' ''i0'') \<and>
   fst (sync_mapped_data ex_host_sub (snd (sync_mapped_data ex_host_sub [] ex_msg_one)) ex_msg_one)
     = Done 0 2 \<and>
   get_at (snd (sync_mapped_data ex_host_sub (snd (sync_mapped_data ex_host_sub [] ex_msg_one))
                  ex_msg_one)) [0, 1, 0]
     = Some (ex_text ''#t'' ''x'')"
    unfolding s1
    by (simp add: ex_defs ex_more_defs sync_eval pattern_eval str_eval)
  from a b1 b2 b show ?thesis by simp
qed

text \<open>
  C1 (amended): take a template none of whose sublayers carries an identifier tag, a rule
  list and a batch in which no identifier that is new to the document occurs twice. The
  template may be a node of the page itself, also one that the pass updates. When a
  first run has completed, a second run with the same inputs leaves the document
  exactly as the first run left it, the tagged elements and their content included, and
  reports zero creations and \<open>N\<close> updates, where \<open>N\<close> adds up, over the records, the
  elements tagged with the record's identifier; for a batch of distinct identifiers
  that is the sum over the identifiers of the elements per identifier.
\<close>

theorem sync_idempotent:
  assumes "sync_mapped_data getNodeById pg msg = (Done c1 u1, pg1)"
    and "data msg = Some d" and "getNodeById (targetSourceId msg) = Some templateNode"
    and "deref pg templateNode = Some t"
    and "distinct (new_keys pg (keys_from (idField msg) 0 d))"
    and "\<forall>e\<in>set (entries_children [] 0 (children t)). fst e = []"
  shows "sync_mapped_data getNodeById pg1 msg =
      (Done 0 (sum_list (map (\<lambda>k. length (tagged_with pg1 k)) (keys_from (idField msg) 0 d))), pg1) \<and>
    (distinct (keys_from (idField msg) 0 d) \<longrightarrow>
       sum_list (map (\<lambda>k. length (tagged_with pg1 k)) (keys_from (idField msg) 0 d))
       = (\<Sum>k\<in>set (keys_from (idField msg) 0 d). length (tagged_with pg1 k)))"
proof -
  let ?keys = "keys_from (idField msg) 0 d"
  let ?nk = "new_keys pg ?keys"
  let ?m0 = "buildExistingMap pg"
  let ?m1 = "buildExistingMap pg1"
  from assms(1,2,3) obtain ms where ms: "mappings msg = Some ms" "ms \<noteq> []" and dne: "d \<noteq> []"
    by (auto simp: sync_mapped_data_def split: option.splits if_splits)
  let ?env = "pass_env templateNode pg msg ms"
  let ?ins = "instances_from t ?env 0 ?nk"
  obtain e1 st1 where p1: "sync_pass templateNode pg msg d ms = (e1, st1)"
    by (cases "sync_pass templateNode pg msg d ms")
  have e1: "e1 = None" and pg1: "pg1 = ls_page st1"
    using assms(1,2,3) ms dne p1 by (cases e1; simp add: sync_mapped_data_def)+
  note p1 = p1 [unfolded e1]
  have ne: "\<forall>k\<in>set ?keys. k \<noteq> []" using keys_from_ne by blast
  txt \<open>The page after the first run has the skeleton of the page with its new elements.\<close>
  from sync_pass_instances [OF p1 assms(4)] have sk: "map skeleton pg1 = map skeleton (pg @ ?ins)"
    by (auto simp: pg1)
  have tw: "tagged_with pg1 k = tagged_with pg k @ new_refs (length pg) ?nk k" if "k \<noteq> []" for k
  proof -
    have "tagged_with pg1 k = tagged_with (pg @ ?ins) k" by (rule tagged_with_skeleton [OF sk])
    also have "\<dots> = tagged_with pg k @ new_refs (length pg) ?nk k"
      by (rule tagged_with_instances [OF assms(6) that])
    finally show ?thesis .
  qed
  have l1: "lookup ?m1 k = lookup ?m0 k @ new_refs (length pg) ?nk k" if "k \<in> set ?keys" for k
    using that ne tw [of k] by (simp add: lookup_buildExistingMap)
  txt \<open>Every key of the batch is in the index of the second run.\<close>
  have hit: "lookup ?m1 k \<noteq> []" if "k \<in> set ?keys" for k
  proof (cases "tagged_with pg k = []")
    case True
    then have "k \<in> set ?nk" using that by (simp add: new_keys_def)
    from new_refs_in [OF this] show ?thesis using l1 [OF that] by simp
  next
    case False
    then show ?thesis using l1 [OF that] that ne by (simp add: lookup_buildExistingMap)
  qed
  have mk1: "miss_keys ?m1 ?keys = []" using hit by (simp add: miss_keys_def filter_empty_conv)
  have nk1: "new_keys pg1 ?keys = []" using mk1 by (simp add: miss_keys_build [OF ne])
  txt \<open>The template is still there for the second run.\<close>
  from sync_pass_effect(2) [OF p1] obtain xs where "map skeleton pg1 = map skeleton pg @ xs"
    unfolding pg1 by blast
  from deref_prefix_skeleton [OF this assms(4)] obtain t' where
    t': "deref pg1 templateNode = Some t'" by blast
  txt \<open>The second run.\<close>
  obtain e2 st2 where p2: "sync_pass templateNode pg1 msg d ms = (e2, st2)"
    by (cases "sync_pass templateNode pg1 msg d ms")
  have e2: "e2 = None"
    using sync_loop_all_hit [of "\<lparr>ls_page = pg1, existingMap = ?m1, newIndex = 0,
        updatedCount = 0, createdCount = 0, affectedNodes = []\<rparr>" "pass_env templateNode pg1 msg ms" 0 d]
      mk1 p2 by (simp add: sync_pass_loop pass_env_def)
  note p2 = p2 [unfolded e2]
  have c2: "createdCount st2 = 0" using sync_pass_effect(3) [OF p2] nk1 by simp
  have u2: "updatedCount st2 = sum_list (map (\<lambda>k. length (tagged_with pg1 k)) ?keys)"
    using sync_pass_effect(4) [OF p2] by simp
  txt \<open>Both runs replay the same updates.\<close>
  let ?ops = "zip (map (lookup ?m1) ?keys) d"
  have tg: "targets ?m0 (length pg) ?keys = map (lookup ?m1) ?keys"
    using targets_lookup [of "[]" ?m0 ?keys ?m1 "length pg"] assms(5) l1
    by (simp add: miss_keys_build [OF ne])
  from sync_pass_replay [OF p1 assms(4)] obtain cs where r1: "pg1 = replay ms (pg @ cs) ?ops"
    by (auto simp: pg1 tg)
  have r2: "ls_page st2 = replay ms pg1 ?ops"
    using sync_pass_replay [OF p2 t'] by (simp add: nk1 targets_all_hit [OF mk1])
  have fp: "ls_page st2 = pg1"
    unfolding r2 by (subst (1 2) r1) (rule replay_idem)
  have main: "sync_mapped_data getNodeById pg1 msg =
      (Done 0 (sum_list (map (\<lambda>k. length (tagged_with pg1 k)) ?keys)), pg1)"
    using assms(2,3) ms dne p2 c2 u2 fp by (simp add: sync_mapped_data_def)
  have "distinct ?keys \<longrightarrow>
       sum_list (map (\<lambda>k. length (tagged_with pg1 k)) ?keys)
       = (\<Sum>k\<in>set ?keys. length (tagged_with pg1 k))"
    by (simp add: sum_list_distinct_conv_sum_set)
  with main show ?thesis by simp
qed

theorem sync_idempotent_witness:
  "ex_host_live (targetSourceId ex_msg_live) = Some (OnPage [0]) \<and>
   deref ex_page_live (OnPage [0]) = Some (ex_frame ''Card'' ''a'' 300 400 [ex_text ''#t'' ''old'']) \<and>
   fst (sync_mapped_data ex_host_live ex_page_live ex_msg_live) = Done 1 1 \<and>
   get_at (snd (sync_mapped_data ex_host_live ex_page_live ex_msg_live)) [0, 0]
     = Some (ex_text ''#t'' ''x'') \<and>
   get_at (snd (sync_mapped_data ex_host_live ex_page_live ex_msg_live)) [1, 0]
     = Some (ex_text ''#t'' ''x'') \<and>
   distinct (new_keys ex_page_live (keys_from (idField ex_msg_live) 0
      [[''id'' \<mapsto> JStr ''a'', ''t'' \<mapsto> JStr ''x''], [''id'' \<mapsto> JStr ''b'']])) \<and>
   map fst (entries_children [] 0
      (children (ex_frame ''Card'' ''a'' 300 400 [ex_text ''#t'' ''old'']))) = [''''] \<and>
   sync_mapped_data ex_host_live (snd (sync_mapped_data ex_host_live ex_page_live ex_msg_live)) ex_msg_live
     = (Done 0 2, snd (sync_mapped_data ex_host_live ex_page_live ex_msg_live)) \<and>
   map (\<lambda>n. notionId (attrs_of n)) (snd (sync_mapped_data ex_host_live ex_page_live ex_msg_live))
     = [''a'', ''b'']"
proof -
  let ?d = "[[''id'' \<mapsto> JStr ''a'', ''t'' \<mapsto> JStr ''x''], [''id'' \<mapsto> JStr ''b'']]"
  let ?T = "ex_frame ''Card'' ''a'' 300 400 [ex_text ''#t'' ''old'']"
  let ?P1 = "[ex_frame ''Card'' ''a'' 300 400 [ex_text ''#t'' ''x''],
              Node \<lparr>node_name = ''Card'', node_type = FRAME, node_x = 0, node_y = 490,
                 node_width = 100, node_height = 50, visible = True, characters = [],
                 listOptions = NONE, notionId = ''b'', sourceComponentId = ''c1''\<rparr>
                [ex_text ''#t'' ''x'']]"
  have r1: "sync_mapped_data ex_host_live ex_page_live ex_msg_live = (Done 1 1, ?P1)"
    by (simp add: ex_defs ex_more_defs sync_eval pattern_eval str_eval)
  have dd: "data ex_msg_live = Some ?d" by (simp add: ex_msg_live_def)
  have tp: "ex_host_live (targetSourceId ex_msg_live) = Some (OnPage [0])"
    by (simp add: ex_msg_live_def ex_msg_def ex_host_live_def targetSourceId_def)
  have dr: "deref ex_page_live (OnPage [0]) = Some ?T"
    by (simp add: ex_page_live_def get_at_def)
  have k: "keys_from (idField ex_msg_live) 0 ?d = [''a'', ''b'']"
    by (simp add: ex_msg_live_def ex_msg_def recordId_of_def get_prop_def)
  have nk: "new_keys ex_page_live [''a'', ''b''] = [''b'']"
    by (simp add: new_keys_def tagged_with_def ex_page_live_def ex_frame_def ex_text_def has_children_def)
  have h1: "distinct (new_keys ex_page_live (keys_from (idField ex_msg_live) 0 ?d))"
    unfolding k nk by simp
  have en: "entries_children [] 0 (children ?T) = [('''', [0])]"
    by (simp add: ex_frame_def ex_text_def has_children_def)
  have h2: "\<forall>e\<in>set (entries_children [] 0 (children ?T)). fst e = []"
    unfolding en by simp
  have n: "sum_list (map (\<lambda>k. length (tagged_with ?P1 k)) [''a'', ''b'']) = 2"
    by (simp add: tagged_with_def ex_frame_def ex_text_def has_children_def)
  have g: "get_at ?P1 [0, 0] = Some (ex_text ''#t'' ''x'')" "get_at ?P1 [1, 0] = Some (ex_text ''#t'' ''x'')"
    by (simp_all add: get_at_def ex_frame_def)
  have e2: "map fst (entries_children [] 0 (children ?T)) = ['''']"
    unfolding en by simp
  have ids: "map (\<lambda>n. notionId (attrs_of n)) ?P1 = [''a'', ''b'']"
    by (simp add: ex_frame_def)
  from sync_idempotent [OF r1 dd tp dr h1 h2]
  have s2: "sync_mapped_data ex_host_live ?P1 ex_msg_live = (Done 0 2, ?P1)"
    unfolding k n by simp
  have f: "fst (Done 1 1, ?P1) = Done 1 1" "snd (Done 1 1, ?P1) = ?P1" by simp_all
  show ?thesis unfolding r1 f using tp dr g h1 e2 s2 ids by (intro conjI refl)
qed
end
